theory Spec2Isabelle
  imports Main "HOL-Library.Sublist"
begin

section \<open>Python list slicing\<close>

text \<open>
  \<^verbatim>\<open>xs[i:]\<close> and \<^verbatim>\<open>xs[:j]\<close> for a Python list: a negative index counts from the end
  and is clamped at the start of the list, a non-negative one is clamped at its end.
  \<^verbatim>\<open>del xs[i:]\<close> leaves \<^verbatim>\<open>xs[:i]\<close> in the same list object.
\<close>

definition slice_from :: "'a list \<Rightarrow> int \<Rightarrow> 'a list" where
  "slice_from xs i =
     (if i < 0 then drop (nat (int (length xs) + i)) xs else drop (nat i) xs)"

definition slice_to :: "'a list \<Rightarrow> int \<Rightarrow> 'a list" where
  "slice_to xs j =
     (if j < 0 then take (nat (int (length xs) + j)) xs else take (nat j) xs)"

section \<open>fabric/io.py: helpers\<close>

text \<open>
  \<^verbatim>\<open>
  def _endswith(char_list, substring):
      tail = char_list[-1*len(substring):]
      substring = list(substring)
      return tail == substring
  \<close>
  For an empty \<^verbatim>\<open>substring\<close> the slice is \<^verbatim>\<open>char_list[0:]\<close>, the whole list.
\<close>

definition endswith :: "string \<Rightarrow> string \<Rightarrow> bool" where
  "endswith char_list substring =
     (let tail = slice_from char_list (-1 * int (length substring))
      in tail = substring)"

section \<open>The world the relays act on\<close>

datatype stream_sel = Recv | Recv_stderr

datatype pipe = Stdout | Stderr

text \<open>
  Every effect of the two loops is logged, in program order: reads of and writes to the
  channel, writes to the local streams, calls of the interactive prompt and of the
  credential store, and the three statements that change the capture list.
\<close>

datatype event =
    is_Chan_read: Chan_read stream_sel string
  | is_Flush: Flush pipe string
  | is_Capture_extend: Capture_extend nat string
  | is_Capture_del: Capture_del nat int
  | is_Capture_rebind: Capture_rebind nat nat
  | is_Prompt_for_password: Prompt_for_password string bool pipe
  | is_Set_password: Set_password string
  | is_Sendall: Sendall string
  | is_Exit_status_ready: Exit_status_ready bool
  | is_Have_char: Have_char bool
  | is_Stdin_read: Stdin_read string

text \<open>
  The settings of \<^verbatim>\<open>fabric.state\<close> that \<^verbatim>\<open>io.py\<close> reads: \<^verbatim>\<open>env.host_string\<close>
  (\<^verbatim>\<open>None\<close> until a host is chosen), \<^verbatim>\<open>env.sudo_prompt\<close>, \<^verbatim>\<open>env.again_prompt\<close>,
  \<^verbatim>\<open>env.echo_stdin\<close>, and the output levels \<^verbatim>\<open>output.stdout\<close> and \<^verbatim>\<open>output.stderr\<close>.
  Lines 33 to 35 of \<^verbatim>\<open>output_loop\<close> compute a coloured \<^verbatim>\<open>host_prefix\<close> that is never
  used afterwards; it has no counterpart here.
\<close>

record env =
  host_string :: "string option"
  sudo_prompt :: string
  again_prompt :: string
  echo_stdin :: bool
  output_stdout :: bool
  output_stderr :: bool

text \<open>
  The mutable world. \<open>store\<close> holds the Python list objects by address (\<open>next_free\<close> is
  the first address not yet allocated); \<open>incoming\<close> is what the channel will still
  deliver on each stream; \<open>password\<close> and \<open>passwords\<close> are \<^verbatim>\<open>env.password\<close> and
  \<^verbatim>\<open>env.passwords\<close>; \<open>operator\<close> gives the answer the operator types at the \<open>n\<close>-th
  interactive prompt and \<open>asked\<close> counts the prompts so far. The local input has two
  queues: \<open>stdin_fd\<close> holds the bytes waiting at the descriptor of \<^verbatim>\<open>sys.stdin\<close> (on
  win32, the keys waiting at the console), \<open>stdin_buf\<close> the bytes that the file object
  \<^verbatim>\<open>sys.stdin\<close> has already taken from the descriptor into its own buffer and not yet
  handed out; \<open>stdin_eof\<close> says that the local input has reached its end.
\<close>

record world =
  store :: "nat \<Rightarrow> string"
  next_free :: nat
  incoming :: "stream_sel \<Rightarrow> string"
  password :: "string option"
  passwords :: "string option \<Rightarrow> string option"
  operator :: "nat \<Rightarrow> string"
  asked :: nat
  stdin_fd :: string
  stdin_buf :: string
  stdin_eof :: bool
  events :: "event list"

definition log :: "event \<Rightarrow> world \<Rightarrow> world" where
  "log ev w = w\<lparr>events := events w @ [ev]\<rparr>"

text \<open>\<^verbatim>\<open>_flush(pipe, text)\<close>: write, then flush.\<close>

definition flush :: "pipe \<Rightarrow> string \<Rightarrow> world \<Rightarrow> world" where
  "flush p text w = log (Flush p text) w"

text \<open>
  \<^verbatim>\<open>func(1)\<close>, that is \<^verbatim>\<open>chan.recv(1)\<close> or \<^verbatim>\<open>chan.recv_stderr(1)\<close>: the next byte of the
  stream, or the empty string at end of stream.
\<close>

definition chan_read :: "stream_sel \<Rightarrow> world \<Rightarrow> string \<times> world" where
  "chan_read which w =
     (case incoming w which of
        [] \<Rightarrow> ([], log (Chan_read which []) w)
      | b # bs \<Rightarrow>
          ([b], log (Chan_read which [b]) (w\<lparr>incoming := (incoming w)(which := bs)\<rparr>)))"

definition sendall :: "string \<Rightarrow> world \<Rightarrow> world" where
  "sendall text w = log (Sendall text) w"

text \<open>
  Modelled from the spec: \<^verbatim>\<open>fabric.auth.get_password\<close> is not among the sources. The
  credential cache is "a single password plus a mapping from host identity to per-host
  overrides", and \<^verbatim>\<open>get_password(context) -> Optional<string>\<close> reads it: the entry of
  the current host, or else the single password.
\<close>

definition get_password :: "env \<Rightarrow> world \<Rightarrow> string option" where
  "get_password e w =
     (case passwords w (host_string e) of Some p \<Rightarrow> Some p | None \<Rightarrow> password w)"

text \<open>
  Modelled from the spec: \<^verbatim>\<open>fabric.auth.set_password\<close> is not among the sources.
  \<^verbatim>\<open>set_password(context, value)\<close> caches the value; the comment on line 97 says it
  updates \<^verbatim>\<open>env.password\<close> and \<^verbatim>\<open>env.passwords\<close>, so the value goes to the single
  password and to the entry of the current host.
\<close>

definition set_password :: "env \<Rightarrow> string \<Rightarrow> world \<Rightarrow> world" where
  "set_password e p w =
     log (Set_password p)
       (w\<lparr>password := Some p, passwords := (passwords w)(host_string e := Some p)\<rparr>)"

text \<open>
  Modelled from the spec: \<^verbatim>\<open>fabric.network.prompt_for_password\<close> is not among the
  sources. The interactive prompt is \<^verbatim>\<open>ask(prompt_text, suppress_echo, target_stream)\<close>
  and returns what the operator entered. The operator is taken to answer every prompt:
  the call made after \<open>n\<close> earlier ones returns \<open>operator w n\<close>.
\<close>

definition prompt_for_password :: "string \<Rightarrow> bool \<Rightarrow> pipe \<Rightarrow> world \<Rightarrow> string \<times> world" where
  "prompt_for_password prompt no_colon stream w =
     (operator w (asked w),
      log (Prompt_for_password prompt no_colon stream) (w\<lparr>asked := Suc (asked w)\<rparr>))"

section \<open>fabric/io.py: output_loop\<close>

abbreviation LF :: string where "LF \<equiv> [CHR 0x0A]"
abbreviation CR :: string where "CR \<equiv> [CHR 0x0D]"

text \<open>The local variables of the loop. \<open>capture\<close> is \<open>None\<close> or a reference to a list.\<close>

record loop_vars =
  capture :: "nat option"
  reprompt :: bool
  initial_prefix_printed :: bool

definition stream_prefix :: "stream_sel \<Rightarrow> string" where
  "stream_prefix which = (if which = Recv then ''out'' else ''err'')"

definition stream_pipe :: "stream_sel \<Rightarrow> pipe" where
  "stream_pipe which = (if which = Recv then Stdout else Stderr)"

definition printing :: "env \<Rightarrow> stream_sel \<Rightarrow> bool" where
  "printing e which = (if which = Recv then output_stdout e else output_stderr e)"

text \<open>\<^verbatim>\<open>"[%s] %s: " % (env.host_string, prefix)\<close>; \<^verbatim>\<open>%s\<close> prints \<^verbatim>\<open>None\<close> as its name.\<close>

definition line_prefix :: "env \<Rightarrow> stream_sel \<Rightarrow> string" where
  "line_prefix e which =
     ''['' @ (case host_string e of None \<Rightarrow> ''None'' | Some h \<Rightarrow> h) @ ''] ''
       @ stream_prefix which @ '': ''"

text \<open>Lines 56 to 65: print to user.\<close>

definition print_to_user ::
  "env \<Rightarrow> stream_sel \<Rightarrow> string \<Rightarrow> loop_vars \<times> world \<Rightarrow> loop_vars \<times> world" where
  "print_to_user e which byte = (\<lambda>(v, w).
     if printing e which then
       let (v1, w1) =
             (if \<not> initial_prefix_printed v
              then (v\<lparr>initial_prefix_printed := True\<rparr>,
                    flush (stream_pipe which) (line_prefix e which) w)
              else (v, w));
           w2 = flush (stream_pipe which) byte w1;
           w3 = (if byte = LF \<or> byte = CR
                 then flush (stream_pipe which) (line_prefix e which) w2 else w2)
       in (v1, w3)
     else (v, w))"

text \<open>Line 67, \<^verbatim>\<open>capture += byte\<close>: the list object is extended in place.\<close>

definition capture_extend :: "nat \<Rightarrow> string \<Rightarrow> world \<Rightarrow> world" where
  "capture_extend a byte w =
     log (Capture_extend a byte) (w\<lparr>store := (store w)(a := store w a @ byte)\<rparr>)"

text \<open>Line 79, \<^verbatim>\<open>del capture[i:]\<close>: the list object is cut in place.\<close>

definition capture_del :: "nat \<Rightarrow> int \<Rightarrow> world \<Rightarrow> world" where
  "capture_del a i w =
     log (Capture_del a i) (w\<lparr>store := (store w)(a := slice_to (store w a) i)\<rparr>)"

text \<open>
  Line 105, \<^verbatim>\<open>capture = capture[:j]\<close>: the slice is a new list object and the local name
  is bound to it; the object it was bound to is left as it was.
\<close>

definition capture_rebind :: "nat \<Rightarrow> int \<Rightarrow> world \<Rightarrow> nat \<times> world" where
  "capture_rebind a j w =
     (next_free w,
      log (Capture_rebind a (next_free w))
        (w\<lparr>store := (store w)(next_free w := slice_to (store w a) j),
           next_free := Suc (next_free w)\<rparr>))"

text \<open>Lines 82 to 100: ask the operator, store the answer, reset the flag.\<close>

definition ask_operator ::
  "env \<Rightarrow> stream_sel \<Rightarrow> loop_vars \<times> world \<Rightarrow> string \<times> loop_vars \<times> world" where
  "ask_operator e which = (\<lambda>(v, w).
     let w1 =
           (if \<not> printing e which then
              let w' = flush (stream_pipe which) (line_prefix e which) w;
                  w'' = (if reprompt v
                         then flush (stream_pipe which)
                                (again_prompt e @ LF @ line_prefix e which) w'
                         else w')
              in flush (stream_pipe which) (sudo_prompt e) w''
            else w);
         (pw, w2) = prompt_for_password '' '' True (stream_pipe which) w1;
         w3 = set_password e pw w2
     in (pw, v\<lparr>reprompt := False\<rparr>, w3))"

text \<open>
  Lines 73 to 102, the branch \<^verbatim>\<open>if prompt:\<close>. \<^verbatim>\<open>not password\<close> holds for \<^verbatim>\<open>None\<close> and
  for the empty string.
\<close>

definition on_prompt ::
  "env \<Rightarrow> stream_sel \<Rightarrow> nat \<Rightarrow> loop_vars \<times> world \<Rightarrow> loop_vars \<times> world" where
  "on_prompt e which a = (\<lambda>(v, w).
     let cached = get_password e w;
         w1 = capture_del a (-1 * int (length (sudo_prompt e))) w;
         (pw, v2, w2) =
           (case cached of
              None \<Rightarrow> ask_operator e which (v, w1)
            | Some p \<Rightarrow>
                if p = [] \<or> reprompt v then ask_operator e which (v, w1)
                else (p, v, w1))
     in (v2, sendall (pw @ LF) w2))"

text \<open>Lines 103 to 107, the branch \<^verbatim>\<open>elif try_again:\<close>.\<close>

definition on_try_again ::
  "env \<Rightarrow> nat \<Rightarrow> loop_vars \<times> world \<Rightarrow> loop_vars \<times> world" where
  "on_try_again e a = (\<lambda>(v, w).
     let (a', w1) = capture_rebind a (int (length (again_prompt e))) w
     in (v\<lparr>capture := Some a', reprompt := True\<rparr>, w1))"

text \<open>Lines 69 to 107: handle prompts, on the capture list \<open>a\<close> as just extended.\<close>

definition handle_prompts ::
  "env \<Rightarrow> stream_sel \<Rightarrow> nat \<Rightarrow> loop_vars \<times> world \<Rightarrow> loop_vars \<times> world" where
  "handle_prompts e which a = (\<lambda>(v, w).
     let prompt = endswith (store w a) (sudo_prompt e);
         try_again = (endswith (store w a) (again_prompt e @ LF)
                      \<or> endswith (store w a) (again_prompt e @ CR @ LF))
     in if prompt then on_prompt e which a (v, w)
        else if try_again then on_try_again e a (v, w)
        else (v, w))"

text \<open>Lines 45 to 107: what the loop does with a byte it has read.\<close>

definition handle_byte ::
  "env \<Rightarrow> stream_sel \<Rightarrow> string \<Rightarrow> loop_vars \<times> world \<Rightarrow> loop_vars \<times> world" where
  "handle_byte e which byte = (\<lambda>(v, w).
     case capture v of
       None \<Rightarrow> (v, flush Stdout byte w)
     | Some a \<Rightarrow>
         let (v1, w1) = print_to_user e which byte (v, w);
             w2 = capture_extend a byte w1
         in handle_prompts e which a (v1, w2))"

text \<open>
  One pass through the body of \<^verbatim>\<open>while True\<close>: the read, then \<^verbatim>\<open>break\<close> (the flag is
  \<open>False\<close>) or the handling of the byte.
\<close>

definition loop_iteration ::
  "env \<Rightarrow> stream_sel \<Rightarrow> loop_vars \<times> world \<Rightarrow> bool \<times> loop_vars \<times> world" where
  "loop_iteration e which = (\<lambda>(v, w).
     let (byte, w1) = chan_read which w
     in if byte = [] then (False, v, w1)
        else (True, handle_byte e which byte (v, w1)))"

lemma incoming_print_to_user:
  "incoming (snd (print_to_user e which byte (v, w))) = incoming w"
  by (simp add: print_to_user_def flush_def log_def Let_def split: prod.splits)

lemma incoming_ask_operator:
  "incoming (snd (snd (ask_operator e which (v, w)))) = incoming w"
  by (simp add: ask_operator_def prompt_for_password_def set_password_def flush_def log_def
      Let_def split: prod.splits)

lemma incoming_on_prompt:
  "incoming (snd (on_prompt e which a (v, w))) = incoming w"
proof -
  have "incoming (snd (snd (ask_operator e which (v, capture_del a i w)))) = incoming w" for i
    by (simp add: incoming_ask_operator capture_del_def log_def)
  then show ?thesis
    by (auto simp: on_prompt_def Let_def sendall_def log_def capture_del_def
        split: prod.splits option.splits dest!: arg_cong [where f = "\<lambda>x. incoming (snd (snd x))"])
qed

lemma incoming_on_try_again:
  "incoming (snd (on_try_again e a (v, w))) = incoming w"
  by (simp add: on_try_again_def capture_rebind_def log_def)

lemma incoming_handle_byte:
  "incoming (snd (handle_byte e which byte (v, w))) = incoming w"
proof (cases "capture v")
  case None
  then show ?thesis by (simp add: handle_byte_def flush_def log_def)
next
  case (Some a)
  obtain v1 w1 where p: "print_to_user e which byte (v, w) = (v1, w1)"
    by (cases "print_to_user e which byte (v, w)")
  have w1: "incoming w1 = incoming w"
    using incoming_print_to_user [of e which byte v w] p by simp
  have w2: "incoming (capture_extend a byte w1) = incoming w"
    using w1 by (simp add: capture_extend_def log_def)
  show ?thesis
    using Some p w2
    by (simp add: handle_byte_def handle_prompts_def Let_def incoming_on_prompt
        incoming_on_try_again)
qed

text \<open>
  \<^verbatim>\<open>while True\<close>, left by \<^verbatim>\<open>break\<close> at end of stream. Every pass that goes on has taken a
  byte from the stream, which is finite.
\<close>

function output_loop_while ::
  "env \<Rightarrow> stream_sel \<Rightarrow> loop_vars \<times> world \<Rightarrow> loop_vars \<times> world" where
  "output_loop_while e which s =
     (case loop_iteration e which s of
        (False, s') \<Rightarrow> s'
      | (True, s') \<Rightarrow> output_loop_while e which s')"
  by pat_completeness auto

lemma loop_iteration_consumes:
  assumes "loop_iteration e which (v, w) = (True, v', w')"
  shows "length (incoming w' which) < length (incoming w which)"
proof (cases "incoming w which")
  case Nil
  with assms show ?thesis
    by (simp add: loop_iteration_def chan_read_def)
next
  case (Cons b bs)
  let ?w1 = "log (Chan_read which [b]) (w\<lparr>incoming := (incoming w)(which := bs)\<rparr>)"
  from assms Cons have "handle_byte e which [b] (v, ?w1) = (v', w')"
    by (simp add: loop_iteration_def chan_read_def)
  then have "incoming w' = incoming ?w1"
    using incoming_handle_byte [of e which "[b]" v ?w1] by simp
  with Cons show ?thesis by (simp add: log_def)
qed

termination output_loop_while
proof (relation "measure (\<lambda>(e, which, v, w). length (incoming w which))", goal_cases)
  case 1
  show ?case by simp
next
  case (2 e which s x1 x2)
  then have "loop_iteration e which (fst s, snd s) = (True, fst x2, snd x2)" by simp
  from loop_iteration_consumes [OF this]
  show ?case by (simp add: case_prod_unfold)
qed

declare output_loop_while.simps [simp del]

text \<open>
  \<^verbatim>\<open>output_loop(chan, which, capture)\<close>: the loop variables are initialised and the loop
  runs to the end of the stream. The function returns nothing; its effects are in the
  world, and the final loop variables are kept for inspection.
\<close>

definition output_loop ::
  "env \<Rightarrow> stream_sel \<Rightarrow> nat option \<Rightarrow> world \<Rightarrow> loop_vars \<times> world" where
  "output_loop e which capture0 w =
     output_loop_while e which
       (\<lparr>capture = capture0, reprompt = False, initial_prefix_printed = False\<rparr>, w)"

text \<open>
  The password that the branch \<^verbatim>\<open>if prompt:\<close> sends: the cached one when it is not
  empty and \<open>reprompt\<close> is off, the operator's next answer otherwise.
\<close>

definition resolved_password :: "env \<Rightarrow> loop_vars \<Rightarrow> world \<Rightarrow> string" where
  "resolved_password e v w =
     (case get_password e w of
        None \<Rightarrow> operator w (asked w)
      | Some p \<Rightarrow> if p = [] \<or> reprompt v then operator w (asked w) else p)"

text \<open>
  What the next pass will find: the byte about to be read completes the password prompt,
  or the retry string followed by a line terminator, at the tail of the capture list.
  \<open>passes e which n\<close> is the state after \<open>n\<close> passes through the loop body.
\<close>

definition prompt_pending :: "env \<Rightarrow> stream_sel \<Rightarrow> loop_vars \<times> world \<Rightarrow> bool" where
  "prompt_pending e which = (\<lambda>(v, w).
     case capture v of
       None \<Rightarrow> False
     | Some a \<Rightarrow>
         (case incoming w which of
            [] \<Rightarrow> False
          | b # rest \<Rightarrow> endswith (store w a @ [b]) (sudo_prompt e)))"

definition retry_pending :: "env \<Rightarrow> stream_sel \<Rightarrow> loop_vars \<times> world \<Rightarrow> bool" where
  "retry_pending e which = (\<lambda>(v, w).
     case capture v of
       None \<Rightarrow> False
     | Some a \<Rightarrow>
         (case incoming w which of
            [] \<Rightarrow> False
          | b # rest \<Rightarrow>
              endswith (store w a @ [b]) (again_prompt e @ LF)
              \<or> endswith (store w a @ [b]) (again_prompt e @ CR @ LF)))"

definition passes :: "env \<Rightarrow> stream_sel \<Rightarrow> nat \<Rightarrow> loop_vars \<times> world \<Rightarrow> loop_vars \<times> world" where
  "passes e which n = ((\<lambda>s. snd (loop_iteration e which s)) ^^ n)"

text \<open>
  A capture list on which neither test of the loop succeeds: its tail is not the password
  prompt, and not the retry string followed by a line feed or by a carriage return and a
  line feed. The tests are those of \<open>endswith\<close>, which hold only where the list ends
  with the string.
\<close>

definition quiet :: "env \<Rightarrow> string \<Rightarrow> bool" where
  "quiet e buf =
     (\<not> endswith buf (sudo_prompt e) \<and> \<not> endswith buf (again_prompt e @ LF)
      \<and> \<not> endswith buf (again_prompt e @ CR @ LF))"

section \<open>fabric/io.py: input_loop\<close>

text \<open>
  What does not belong to \<^verbatim>\<open>env\<close>: \<^verbatim>\<open>win32\<close> of \<^verbatim>\<open>fabric.state\<close>, and how many bytes
  beyond the one asked for the file object \<^verbatim>\<open>sys.stdin\<close> takes from its descriptor when
  its buffer is empty and it has to read (as many as wait there, up to \<open>read_ahead\<close>).
\<close>

record platform =
  win32 :: bool
  read_ahead :: nat

text \<open>
  What the loop can observe in one pass: whether \<^verbatim>\<open>chan.exit_status_ready()\<close> answers
  true at the head of the pass, the bytes that reach the descriptor of the local input
  before the poll of that pass ends, and whether the local input has been closed by
  then. A schedule is the list of the passes observed.
\<close>

record tick =
  exit_ready :: bool
  arriving :: string
  closing :: bool

text \<open>
  Lines 112 to 116. On win32, \<^verbatim>\<open>msvcrt.kbhit()\<close> says whether a key waits at the console.
  Elsewhere \<^verbatim>\<open>select\<close> polls the descriptor of \<^verbatim>\<open>sys.stdin\<close> for the poll interval: it
  reports the descriptor readable when bytes wait there or the input is at its end; the
  bytes in the buffer of the file object are not at the descriptor any more and
  \<^verbatim>\<open>select\<close> does not see them.
\<close>

definition have_char :: "platform \<Rightarrow> tick \<Rightarrow> world \<Rightarrow> bool \<times> world" where
  "have_char p t w =
     (let w1 = w\<lparr>stdin_fd := stdin_fd w @ arriving t, stdin_eof := stdin_eof w \<or> closing t\<rparr>;
          hc = (if win32 p then stdin_fd w1 \<noteq> []
                else stdin_fd w1 \<noteq> [] \<or> stdin_eof w1)
      in (hc, log (Have_char hc) w1))"

text \<open>
  Line 119. On win32, \<^verbatim>\<open>msvcrt.getch()\<close> takes the next key from the console. Elsewhere
  \<^verbatim>\<open>sys.stdin.read(1)\<close> hands out the next byte of the buffer of the file object; when
  the buffer is empty the file object reads from the descriptor, keeps what it got
  beyond the first byte, and hands out the first byte, or the empty string at the end of
  the input. Either call waits when there is nothing to return (\<open>None\<close>).
\<close>

definition stdin_read :: "platform \<Rightarrow> world \<Rightarrow> (string \<times> world) option" where
  "stdin_read p w =
     (if win32 p then
        (case stdin_fd w of
           [] \<Rightarrow> None
         | b # bs \<Rightarrow> Some ([b], log (Stdin_read [b]) (w\<lparr>stdin_fd := bs\<rparr>)))
      else
        (case stdin_buf w of
           b # bs \<Rightarrow> Some ([b], log (Stdin_read [b]) (w\<lparr>stdin_buf := bs\<rparr>))
         | [] \<Rightarrow>
             (case stdin_fd w of
                b # bs \<Rightarrow>
                  Some ([b], log (Stdin_read [b])
                    (w\<lparr>stdin_buf := take (read_ahead p) bs,
                       stdin_fd := drop (read_ahead p) bs\<rparr>))
              | [] \<Rightarrow> if stdin_eof w then Some ([], log (Stdin_read []) w) else None)))"

text \<open>
  One pass through \<^verbatim>\<open>while not chan.exit_status_ready()\<close>: the flag says whether the
  body ran; \<open>None\<close> is a pass that never ends, waiting in the read.
\<close>

definition input_iteration ::
  "platform \<Rightarrow> env \<Rightarrow> bool \<Rightarrow> tick \<Rightarrow> world \<Rightarrow> (bool \<times> world) option" where
  "input_iteration p e using_pty t w =
     (let w1 = log (Exit_status_ready (exit_ready t)) w
      in if exit_ready t then Some (False, w1)
         else
           let (hc, w2) = have_char p t w1
           in if hc then
                (case stdin_read p w2 of
                   None \<Rightarrow> None
                 | Some (byte, w3) \<Rightarrow>
                     let w4 = sendall byte w3;
                         w5 = (if \<not> using_pty \<and> echo_stdin e
                               then flush Stdout byte w4 else w4)
                     in Some (True, w5))
              else Some (True, w2))"

text \<open>
  \<^verbatim>\<open>input_loop(chan, using_pty)\<close> against a schedule. The loop returns at the first pass
  that finds the exit status ready; when the schedule ends before that, the loop is
  still polling and the result is \<open>None\<close>.
\<close>

fun input_loop ::
  "platform \<Rightarrow> env \<Rightarrow> bool \<Rightarrow> tick list \<Rightarrow> world \<Rightarrow> world option" where
  "input_loop p e using_pty [] w = None"
| "input_loop p e using_pty (t # ts) w =
     (case input_iteration p e using_pty t w of
        None \<Rightarrow> None
      | Some (False, w') \<Rightarrow> Some w'
      | Some (True, w') \<Rightarrow> input_loop p e using_pty ts w')"

text \<open>The text of a write to the channel, and of a read from the local input.\<close>

fun sent_text :: "event \<Rightarrow> string" where
  "sent_text (Sendall s) = s"
| "sent_text ev = []"

fun read_text :: "event \<Rightarrow> string" where
  "read_text (Stdin_read s) = s"
| "read_text ev = []"

section \<open>A concrete setting\<close>

text \<open>
  The prompts are the defaults of \<^verbatim>\<open>fabric.state\<close>. The capture list is object \<open>0\<close>; it
  holds \<open>buf\<close>, the channel will deliver \<open>bytes\<close>, and the single cached password is
  \<open>cached\<close>.
\<close>

definition demo_env :: env where
  "demo_env =
     \<lparr>host_string = Some ''web1'', sudo_prompt = ''sudo password:'',
      again_prompt = ''Sorry, try again.'', echo_stdin = True,
      output_stdout = True, output_stderr = True\<rparr>"

definition demo_vars :: "bool \<Rightarrow> loop_vars" where
  "demo_vars rp = \<lparr>capture = Some 0, reprompt = rp, initial_prefix_printed = True\<rparr>"

definition demo_world :: "string \<Rightarrow> string \<Rightarrow> string option \<Rightarrow> world" where
  "demo_world buf bytes cached =
     \<lparr>store = (\<lambda>_. [])(0 := buf), next_free = 1, incoming = (\<lambda>_. [])(Recv := bytes),
      password = cached, passwords = (\<lambda>_. None), operator = (\<lambda>_. ''hunter2''), asked = 0,
      stdin_fd = [], stdin_buf = [], stdin_eof = False, events = []\<rparr>"

text \<open>
  The same setting at the byte that completes the password prompt, with the empty string
  as the cached password.
\<close>

definition empty_cache_world :: world where
  "empty_cache_world = demo_world ''ls: sudo password'' '':'' (Some [])"

text \<open>The same setting with short prompts.\<close>

definition short_env :: env where
  "short_env =
     \<lparr>host_string = Some ''web1'', sudo_prompt = ''pw:'', again_prompt = ''no'',
      echo_stdin = True, output_stdout = True, output_stderr = True\<rparr>"

text \<open>
  A setting in which the password prompt is a tail of the retry string followed by a
  line feed, so that one byte can complete both.
\<close>

definition overlap_env :: env where
  "overlap_env =
     \<lparr>host_string = Some ''web1'', sudo_prompt = ''password:'' @ LF,
      again_prompt = ''Wrong password:'', echo_stdin = True,
      output_stdout = True, output_stderr = True\<rparr>"

text \<open>
  A schedule for the input loop: two bytes reach the descriptor within one poll (a
  paste, or a line typed at a terminal that delivers whole lines), two polls pass with
  nothing new, then a pass finds the remote process finished.
\<close>

definition burst_ticks :: "tick list" where
  "burst_ticks =
     [\<lparr>exit_ready = False, arriving = ''bc'', closing = False\<rparr>,
      \<lparr>exit_ready = False, arriving = [], closing = False\<rparr>,
      \<lparr>exit_ready = False, arriving = [], closing = False\<rparr>,
      \<lparr>exit_ready = True, arriving = [], closing = False\<rparr>]"

text \<open>
  A schedule on which a key arrives, then two at once, then the local input is closed,
  and the remote process is found finished two passes later.
\<close>

definition demo_ticks :: "tick list" where
  "demo_ticks =
     [\<lparr>exit_ready = False, arriving = ''a'', closing = False\<rparr>,
      \<lparr>exit_ready = False, arriving = ''bc'', closing = False\<rparr>,
      \<lparr>exit_ready = False, arriving = [], closing = True\<rparr>,
      \<lparr>exit_ready = False, arriving = [], closing = False\<rparr>]"

definition demo_last :: tick where
  "demo_last = \<lparr>exit_ready = True, arriving = ''z'', closing = False\<rparr>"

definition posix :: platform where
  "posix = \<lparr>win32 = False, read_ahead = 4095\<rparr>"

definition windows :: platform where
  "windows = \<lparr>win32 = True, read_ahead = 0\<rparr>"

text \<open>The definitions to unfold when a run is evaluated on concrete input.\<close>

lemmas eval_defs =
  passes_def prompt_pending_def retry_pending_def loop_iteration_def chan_read_def
  handle_byte_def handle_prompts_def print_to_user_def capture_extend_def on_try_again_def
  capture_rebind_def on_prompt_def capture_del_def ask_operator_def prompt_for_password_def
  set_password_def get_password_def sendall_def flush_def log_def endswith_def
  slice_from_def slice_to_def printing_def stream_pipe_def stream_prefix_def line_prefix_def
  demo_vars_def demo_world_def

lemmas input_defs =
  input_iteration_def have_char_def stdin_read_def sendall_def flush_def log_def

section \<open>Facts about the helpers\<close>

lemma endswith_iff:
  "endswith xs p \<longleftrightarrow> (if p = [] then xs = [] else suffix p xs)"
proof (cases "p = []")
  case True
  then show ?thesis by (simp add: endswith_def slice_from_def)
next
  case False
  have "(drop (length xs - length p) xs = p) = suffix p xs"
  proof
    assume "drop (length xs - length p) xs = p"
    then have "xs = take (length xs - length p) xs @ p" by (metis append_take_drop_id)
    then show "suffix p xs" by (metis suffixI)
  next
    assume "suffix p xs"
    then obtain q where "xs = q @ p" by (auto simp: suffix_def)
    then show "drop (length xs - length p) xs = p" by simp
  qed
  with False show ?thesis
    by (simp add: endswith_def slice_from_def nat_diff_distrib' Let_def)
qed

lemma endswith_snoc:
  assumes "endswith (buf @ [b]) p"
  shows "p \<noteq> [] \<and> length p \<le> Suc (length buf)
         \<and> slice_to (buf @ [b]) (- int (length p)) @ p = buf @ [b]"
proof -
  from assms have ne: "p \<noteq> []" and suf: "suffix p (buf @ [b])"
    by (auto simp: endswith_iff split: if_splits)
  from suf obtain q where q: "buf @ [b] = q @ p" by (auto simp: suffix_def)
  then have len: "Suc (length buf) = length q + length p"
    by (metis length_append length_append_singleton)
  have "slice_to (q @ p) (- int (length p)) = q"
    using ne by (simp add: slice_to_def)
  with q len show ?thesis using ne by simp
qed


lemma print_to_user_effect:
  "\<exists>fl ipp. list_all is_Flush fl \<and>
     print_to_user e which byte (v, w) =
       (v\<lparr>initial_prefix_printed := ipp\<rparr>, w\<lparr>events := events w @ fl\<rparr>)"
proof (cases "printing e which")
  case False
  have "list_all is_Flush [] \<and> print_to_user e which byte (v, w) =
       (v\<lparr>initial_prefix_printed := initial_prefix_printed v\<rparr>, w\<lparr>events := events w @ []\<rparr>)"
    using False by (simp add: print_to_user_def)
  then show ?thesis by blast
next
  case True
  let ?p = "stream_pipe which" and ?x = "line_prefix e which"
  let ?a = "if initial_prefix_printed v then [] else [Flush ?p ?x]"
  let ?c = "if byte = LF \<or> byte = CR then [Flush ?p ?x] else []"
  have "list_all is_Flush (?a @ [Flush ?p byte] @ ?c) \<and> print_to_user e which byte (v, w) =
       (v\<lparr>initial_prefix_printed := True\<rparr>, w\<lparr>events := events w @ (?a @ [Flush ?p byte] @ ?c)\<rparr>)"
    using True by (simp add: print_to_user_def flush_def log_def)
  then show ?thesis by blast
qed

lemma ask_operator_effect:
  "\<exists>fl. list_all is_Flush fl \<and>
     ask_operator e which (v, w) =
       (operator w (asked w), v\<lparr>reprompt := False\<rparr>,
        w\<lparr>asked := Suc (asked w), password := Some (operator w (asked w)),
          passwords := (passwords w)(host_string e := Some (operator w (asked w))),
          events := events w @ fl @
            [Prompt_for_password '' '' True (stream_pipe which),
             Set_password (operator w (asked w))]\<rparr>)"
proof -
  let ?p = "stream_pipe which" and ?x = "line_prefix e which"
  let ?fl = "if printing e which then []
             else [Flush ?p ?x] @ (if reprompt v then [Flush ?p (again_prompt e @ LF @ ?x)] else [])
                  @ [Flush ?p (sudo_prompt e)]"
  have "list_all is_Flush ?fl \<and>
     ask_operator e which (v, w) =
       (operator w (asked w), v\<lparr>reprompt := False\<rparr>,
        w\<lparr>asked := Suc (asked w), password := Some (operator w (asked w)),
          passwords := (passwords w)(host_string e := Some (operator w (asked w))),
          events := events w @ ?fl @
            [Prompt_for_password '' '' True (stream_pipe which),
             Set_password (operator w (asked w))]\<rparr>)"
    by (simp add: ask_operator_def prompt_for_password_def set_password_def flush_def log_def)
  then show ?thesis by blast
qed

lemma on_prompt_cached:
  assumes "get_password e w = Some p" "p \<noteq> []" "\<not> reprompt v"
  shows "on_prompt e which a (v, w) =
     (v, w\<lparr>store := (store w)(a := slice_to (store w a) (- int (length (sudo_prompt e)))),
          events := events w @
            [Capture_del a (- int (length (sudo_prompt e))), Sendall (p @ LF)]\<rparr>)"
proof -
  have "get_password e (capture_del a i w) = get_password e w" for i
    by (simp add: get_password_def capture_del_def log_def split: option.splits)
  with assms show ?thesis
    by (simp add: on_prompt_def capture_del_def sendall_def log_def)
qed

lemma on_prompt_ask:
  assumes "get_password e w = None \<or> get_password e w = Some [] \<or> reprompt v"
  shows "\<exists>fl. list_all is_Flush fl \<and> on_prompt e which a (v, w) =
     (v\<lparr>reprompt := False\<rparr>,
      w\<lparr>store := (store w)(a := slice_to (store w a) (- int (length (sudo_prompt e)))),
        asked := Suc (asked w), password := Some (operator w (asked w)),
        passwords := (passwords w)(host_string e := Some (operator w (asked w))),
        events := events w @ Capture_del a (- int (length (sudo_prompt e))) # fl @
          [Prompt_for_password '' '' True (stream_pipe which),
           Set_password (operator w (asked w)),
           Sendall (operator w (asked w) @ LF)]\<rparr>)"
proof -
  let ?w1 = "w\<lparr>store := (store w)(a := slice_to (store w a) (- int (length (sudo_prompt e)))),
               events := events w @ [Capture_del a (- int (length (sudo_prompt e)))]\<rparr>"
  have gp: "get_password e ?w1 = get_password e w"
    by (simp add: get_password_def split: option.splits)
  obtain fl where fl: "list_all is_Flush fl" and
    ask: "ask_operator e which (v, ?w1) =
       (operator ?w1 (asked ?w1), v\<lparr>reprompt := False\<rparr>,
        ?w1\<lparr>asked := Suc (asked ?w1), password := Some (operator ?w1 (asked ?w1)),
          passwords := (passwords ?w1)(host_string e := Some (operator ?w1 (asked ?w1))),
          events := events ?w1 @ fl @
            [Prompt_for_password '' '' True (stream_pipe which),
             Set_password (operator ?w1 (asked ?w1))]\<rparr>)"
    using ask_operator_effect [of e which v ?w1] by blast
  have "on_prompt e which a (v, w) =
      (case ask_operator e which (v, ?w1) of (pw, v2, w2) \<Rightarrow> (v2, sendall (pw @ LF) w2))"
    using assms gp by (auto simp: on_prompt_def Let_def capture_del_def log_def split: option.splits)
  then have "on_prompt e which a (v, w) =
     (v\<lparr>reprompt := False\<rparr>,
      w\<lparr>store := (store w)(a := slice_to (store w a) (- int (length (sudo_prompt e)))),
        asked := Suc (asked w), password := Some (operator w (asked w)),
        passwords := (passwords w)(host_string e := Some (operator w (asked w))),
        events := events w @ Capture_del a (- int (length (sudo_prompt e))) # fl @
          [Prompt_for_password '' '' True (stream_pipe which),
           Set_password (operator w (asked w)),
           Sendall (operator w (asked w) @ LF)]\<rparr>)"
    by (simp add: ask capture_del_def sendall_def log_def)
  with fl show ?thesis by blast
qed

lemma loop_iteration_capture:
  assumes "capture v = Some a" "incoming w which = b # rest"
  shows "\<exists>fl ipp. list_all is_Flush fl \<and>
     loop_iteration e which (v, w) =
       (True, handle_prompts e which a
          (v\<lparr>initial_prefix_printed := ipp\<rparr>,
           w\<lparr>incoming := (incoming w)(which := rest),
             store := (store w)(a := store w a @ [b]),
             events := events w @ Chan_read which [b] # fl @ [Capture_extend a [b]]\<rparr>))"
proof -
  let ?w0 = "w\<lparr>incoming := (incoming w)(which := rest),
               events := events w @ [Chan_read which [b]]\<rparr>"
  obtain fl ipp where fl: "list_all is_Flush fl" and
    pr: "print_to_user e which [b] (v, ?w0) =
       (v\<lparr>initial_prefix_printed := ipp\<rparr>, ?w0\<lparr>events := events ?w0 @ fl\<rparr>)"
    using print_to_user_effect [of e which "[b]" v ?w0] by blast
  have "loop_iteration e which (v, w) =
       (True, handle_prompts e which a
          (v\<lparr>initial_prefix_printed := ipp\<rparr>,
           w\<lparr>incoming := (incoming w)(which := rest),
             store := (store w)(a := store w a @ [b]),
             events := events w @ Chan_read which [b] # fl @ [Capture_extend a [b]]\<rparr>))"
    using assms
    by (simp add: loop_iteration_def chan_read_def handle_byte_def pr capture_extend_def log_def)
  with fl show ?thesis by blast
qed


lemma prompt_iteration_cached:
  assumes "capture v = Some a" "incoming w which = b # rest"
    and "endswith (store w a @ [b]) (sudo_prompt e)"
    and "get_password e w = Some p" "p \<noteq> []" "\<not> reprompt v"
  shows "\<exists>fl ipp. list_all is_Flush fl \<and>
     loop_iteration e which (v, w) =
       (True, v\<lparr>initial_prefix_printed := ipp\<rparr>,
        w\<lparr>incoming := (incoming w)(which := rest),
          store := (store w)(a := slice_to (store w a @ [b]) (- int (length (sudo_prompt e)))),
          events := events w @ Chan_read which [b] # fl @
            [Capture_extend a [b], Capture_del a (- int (length (sudo_prompt e))),
             Sendall (p @ LF)]\<rparr>)"
proof -
  obtain fl ipp where fl: "list_all is_Flush fl" and
    it: "loop_iteration e which (v, w) =
       (True, handle_prompts e which a
          (v\<lparr>initial_prefix_printed := ipp\<rparr>,
           w\<lparr>incoming := (incoming w)(which := rest),
             store := (store w)(a := store w a @ [b]),
             events := events w @ Chan_read which [b] # fl @ [Capture_extend a [b]]\<rparr>))"
    using loop_iteration_capture [OF assms(1,2)] by blast
  let ?v1 = "v\<lparr>initial_prefix_printed := ipp\<rparr>"
  let ?w2 = "w\<lparr>incoming := (incoming w)(which := rest),
             store := (store w)(a := store w a @ [b]),
             events := events w @ Chan_read which [b] # fl @ [Capture_extend a [b]]\<rparr>"
  have gp: "get_password e ?w2 = Some p"
    using assms(4) by (simp add: get_password_def split: option.splits)
  have "handle_prompts e which a (?v1, ?w2) = on_prompt e which a (?v1, ?w2)"
    using assms(3) by (simp add: handle_prompts_def)
  also have "\<dots> = (?v1, ?w2\<lparr>store := (store ?w2)(a := slice_to (store ?w2 a) (- int (length (sudo_prompt e)))),
          events := events ?w2 @
            [Capture_del a (- int (length (sudo_prompt e))), Sendall (p @ LF)]\<rparr>)"
    using on_prompt_cached [OF gp assms(5), of ?v1 which a] assms(6) by simp
  finally show ?thesis using fl it by auto
qed

lemma prompt_iteration_ask:
  assumes "capture v = Some a" "incoming w which = b # rest"
    and "endswith (store w a @ [b]) (sudo_prompt e)"
    and "get_password e w = None \<or> get_password e w = Some [] \<or> reprompt v"
  shows "\<exists>fl fl' ipp. list_all is_Flush fl \<and> list_all is_Flush fl' \<and>
     loop_iteration e which (v, w) =
       (True, v\<lparr>initial_prefix_printed := ipp, reprompt := False\<rparr>,
        w\<lparr>incoming := (incoming w)(which := rest),
          store := (store w)(a := slice_to (store w a @ [b]) (- int (length (sudo_prompt e)))),
          asked := Suc (asked w), password := Some (operator w (asked w)),
          passwords := (passwords w)(host_string e := Some (operator w (asked w))),
          events := events w @ Chan_read which [b] # fl @
            [Capture_extend a [b], Capture_del a (- int (length (sudo_prompt e)))] @ fl' @
            [Prompt_for_password '' '' True (stream_pipe which),
             Set_password (operator w (asked w)),
             Sendall (operator w (asked w) @ LF)]\<rparr>)"
proof -
  obtain fl ipp where fl: "list_all is_Flush fl" and
    it: "loop_iteration e which (v, w) =
       (True, handle_prompts e which a
          (v\<lparr>initial_prefix_printed := ipp\<rparr>,
           w\<lparr>incoming := (incoming w)(which := rest),
             store := (store w)(a := store w a @ [b]),
             events := events w @ Chan_read which [b] # fl @ [Capture_extend a [b]]\<rparr>))"
    using loop_iteration_capture [OF assms(1,2)] by blast
  let ?v1 = "v\<lparr>initial_prefix_printed := ipp\<rparr>"
  let ?w2 = "w\<lparr>incoming := (incoming w)(which := rest),
             store := (store w)(a := store w a @ [b]),
             events := events w @ Chan_read which [b] # fl @ [Capture_extend a [b]]\<rparr>"
  have gp: "get_password e ?w2 = get_password e w"
    by (simp add: get_password_def split: option.splits)
  have c: "get_password e ?w2 = None \<or> get_password e ?w2 = Some [] \<or> reprompt ?v1"
    using assms(4) gp by simp
  obtain fl' where fl': "list_all is_Flush fl'" and
    op: "on_prompt e which a (?v1, ?w2) =
     (?v1\<lparr>reprompt := False\<rparr>,
      ?w2\<lparr>store := (store ?w2)(a := slice_to (store ?w2 a) (- int (length (sudo_prompt e)))),
        asked := Suc (asked ?w2), password := Some (operator ?w2 (asked ?w2)),
        passwords := (passwords ?w2)(host_string e := Some (operator ?w2 (asked ?w2))),
        events := events ?w2 @ Capture_del a (- int (length (sudo_prompt e))) # fl' @
          [Prompt_for_password '' '' True (stream_pipe which),
           Set_password (operator ?w2 (asked ?w2)),
           Sendall (operator ?w2 (asked ?w2) @ LF)]\<rparr>)"
    using on_prompt_ask [OF c, of which a] by blast
  have "handle_prompts e which a (?v1, ?w2) = on_prompt e which a (?v1, ?w2)"
    using assms(3) by (simp add: handle_prompts_def)
  with op it have "loop_iteration e which (v, w) =
       (True, v\<lparr>initial_prefix_printed := ipp, reprompt := False\<rparr>,
        w\<lparr>incoming := (incoming w)(which := rest),
          store := (store w)(a := slice_to (store w a @ [b]) (- int (length (sudo_prompt e)))),
          asked := Suc (asked w), password := Some (operator w (asked w)),
          passwords := (passwords w)(host_string e := Some (operator w (asked w))),
          events := events w @ Chan_read which [b] # fl @
            [Capture_extend a [b], Capture_del a (- int (length (sudo_prompt e)))] @ fl' @
            [Prompt_for_password '' '' True (stream_pipe which),
             Set_password (operator w (asked w)),
             Sendall (operator w (asked w) @ LF)]\<rparr>)"
    by simp
  with fl fl' show ?thesis by blast
qed

lemma flush_not_others:
  "list_all is_Flush fl \<Longrightarrow>
   list_all (\<lambda>ev. \<not> is_Chan_read ev \<and> \<not> is_Sendall ev \<and> \<not> is_Capture_extend ev
      \<and> \<not> is_Capture_del ev \<and> \<not> is_Capture_rebind ev \<and> \<not> is_Prompt_for_password ev
      \<and> \<not> is_Set_password ev) fl"
  by (rule list.pred_mono_strong, assumption) (case_tac z, simp_all)

section \<open>The claims on the output loop\<close>

text \<open>
  Claim C1. The claim asks that on a retry match the capture list be cut, in place, just
  after the retry string, so that all that preceded the retry string stays and only the
  line terminator goes. On the capture list holding a carriage return, a line feed,
  \<^verbatim>\<open>Sorry, try again.\<close> and a carriage return, with a line feed read next, line 105
  does neither. After that pass the list object \<open>0\<close> that the caller passed still holds
  all its bytes, line terminator included, and the local name is bound to a new list,
  object \<open>1\<close>, holding the first \<open>length (again_prompt e)\<close> bytes of the old one, which
  end in the middle of the retry string. The byte read in the pass after that goes to
  the new list and not to the caller's.
\<close>

theorem C1_retry_rebinds_a_prefix:
  "let w = demo_world (CR @ LF @ ''Sorry, try again.'' @ CR) (LF @ ''o'') (Some ''pw'');
       (v1, w1) = passes demo_env Recv (Suc 0) (demo_vars False, w);
       (v2, w2) = passes demo_env Recv (Suc (Suc 0)) (demo_vars False, w)
   in endswith (store w 0 @ LF) (again_prompt demo_env @ CR @ LF) \<and>
      capture v1 = Some 1 \<and> reprompt v1 \<and>
      store w1 0 = CR @ LF @ ''Sorry, try again.'' @ CR @ LF \<and>
      store w1 1 = CR @ LF @ ''Sorry, try agai'' \<and>
      store w2 0 = CR @ LF @ ''Sorry, try again.'' @ CR @ LF \<and>
      store w2 1 = CR @ LF @ ''Sorry, try agai'' @ ''o''"
  by (simp add: eval_defs demo_env_def)

text \<open>
  Claim C2. In capture mode, when appending the byte just read makes the tail of the
  capture list (the list object \<open>a\<close> that the local name refers to) equal to the password
  prompt, one pass of the loop reads that one byte, appends it, removes exactly
  \<open>length (sudo_prompt e)\<close> bytes from the end of that same list
  (what is left, followed by the prompt, is the list as it was before stripping), and
  only then writes the password and a line feed to the channel. That write is the last
  effect of the pass, so it precedes the next read, and the pass holds no other read,
  write to the channel, or change of the capture list.
\<close>

theorem C2_prompt_stripped_then_password_sent:
  assumes "capture v = Some a" and "incoming w which = b # rest"
    and "endswith (store w a @ [b]) (sudo_prompt e)"
  shows "\<exists>v' w' pre mid.
     loop_iteration e which (v, w) = (True, v', w') \<and>
     capture v' = Some a \<and>
     store w' a @ sudo_prompt e = store w a @ [b] \<and>
     length (store w' a) + length (sudo_prompt e) = length (store w a @ [b]) \<and>
     incoming w' which = rest \<and>
     events w' = events w @ Chan_read which [b] # pre @
        Capture_extend a [b] # Capture_del a (- int (length (sudo_prompt e))) # mid @
        [Sendall (resolved_password e v w @ LF)] \<and>
     list_all (\<lambda>ev. \<not> is_Chan_read ev \<and> \<not> is_Sendall ev \<and> \<not> is_Capture_extend ev
        \<and> \<not> is_Capture_del ev \<and> \<not> is_Capture_rebind ev) (pre @ mid)"
proof -
  let ?n = "- int (length (sudo_prompt e))"
  from endswith_snoc [OF assms(3)]
  have cut: "slice_to (store w a @ [b]) ?n @ sudo_prompt e = store w a @ [b]" by simp
  then have len: "length (slice_to (store w a @ [b]) ?n) + length (sudo_prompt e)
      = length (store w a @ [b])"
    by (metis length_append)
  show ?thesis
  proof (cases "get_password e w = None \<or> get_password e w = Some [] \<or> reprompt v")
    case True
    then have pw: "resolved_password e v w = operator w (asked w)"
      by (auto simp: resolved_password_def split: option.splits)
    from prompt_iteration_ask [OF assms True]
    obtain fl fl' ipp where fl: "list_all is_Flush fl" "list_all is_Flush fl'" and
      it: "loop_iteration e which (v, w) =
       (True, v\<lparr>initial_prefix_printed := ipp, reprompt := False\<rparr>,
        w\<lparr>incoming := (incoming w)(which := rest),
          store := (store w)(a := slice_to (store w a @ [b]) ?n),
          asked := Suc (asked w), password := Some (operator w (asked w)),
          passwords := (passwords w)(host_string e := Some (operator w (asked w))),
          events := events w @ Chan_read which [b] # fl @
            [Capture_extend a [b], Capture_del a ?n] @ fl' @
            [Prompt_for_password '' '' True (stream_pipe which),
             Set_password (operator w (asked w)),
             Sendall (operator w (asked w) @ LF)]\<rparr>)"
      by blast
    let ?mid = "fl' @ [Prompt_for_password '' '' True (stream_pipe which),
             Set_password (operator w (asked w))]"
    have "list_all (\<lambda>ev. \<not> is_Chan_read ev \<and> \<not> is_Sendall ev \<and> \<not> is_Capture_extend ev
        \<and> \<not> is_Capture_del ev \<and> \<not> is_Capture_rebind ev) (fl @ ?mid)"
      using flush_not_others [OF fl(1)] flush_not_others [OF fl(2)]
      by (auto simp: list_all_iff)
    then show ?thesis
      using it assms(1) cut len pw
      by - (rule exI [of _ "v\<lparr>initial_prefix_printed := ipp, reprompt := False\<rparr>"],
          rule exI [of _ "snd (snd (loop_iteration e which (v, w)))"],
          rule exI [of _ fl], rule exI [of _ ?mid], simp del: length_append)
  next
    case False
    then obtain p where p: "get_password e w = Some p" "p \<noteq> []" "\<not> reprompt v"
      by (cases "get_password e w") auto
    then have pw: "resolved_password e v w = p"
      by (simp add: resolved_password_def)
    from prompt_iteration_cached [OF assms p]
    obtain fl ipp where fl: "list_all is_Flush fl" and
      it: "loop_iteration e which (v, w) =
       (True, v\<lparr>initial_prefix_printed := ipp\<rparr>,
        w\<lparr>incoming := (incoming w)(which := rest),
          store := (store w)(a := slice_to (store w a @ [b]) ?n),
          events := events w @ Chan_read which [b] # fl @
            [Capture_extend a [b], Capture_del a ?n, Sendall (p @ LF)]\<rparr>)"
      by blast
    have "list_all (\<lambda>ev. \<not> is_Chan_read ev \<and> \<not> is_Sendall ev \<and> \<not> is_Capture_extend ev
        \<and> \<not> is_Capture_del ev \<and> \<not> is_Capture_rebind ev) (fl @ [])"
      using flush_not_others [OF fl] by (auto simp: list_all_iff)
    then show ?thesis
      using it assms(1) cut len pw
      by - (rule exI [of _ "v\<lparr>initial_prefix_printed := ipp\<rparr>"],
          rule exI [of _ "snd (snd (loop_iteration e which (v, w)))"],
          rule exI [of _ fl], rule exI [of _ "[]"], simp del: length_append)
  qed
qed


theorem C2_witness:
  "let e = demo_env; v = demo_vars False;
       w = demo_world ''ls: sudo password'' '':'' (Some ''pw'')
   in endswith (store w 0 @ '':'') (sudo_prompt e) \<and>
      (\<exists>v' w' pre mid.
         loop_iteration e Recv (v, w) = (True, v', w') \<and>
         capture v' = Some 0 \<and>
         store w' 0 @ sudo_prompt e = store w 0 @ '':'' \<and>
         length (store w' 0) + length (sudo_prompt e) = length (store w 0 @ '':'') \<and>
         incoming w' Recv = [] \<and>
         events w' = events w @ Chan_read Recv '':'' # pre @
            Capture_extend 0 '':'' # Capture_del 0 (- int (length (sudo_prompt e))) # mid @
            [Sendall (resolved_password e v w @ LF)] \<and>
         list_all (\<lambda>ev. \<not> is_Chan_read ev \<and> \<not> is_Sendall ev \<and> \<not> is_Capture_extend ev
            \<and> \<not> is_Capture_del ev \<and> \<not> is_Capture_rebind ev) (pre @ mid))"
proof -
  let ?w = "demo_world ''ls: sudo password'' '':'' (Some ''pw'')"
  have h1: "capture (demo_vars False) = Some 0" by (simp add: demo_vars_def)
  have h2: "incoming ?w Recv = CHR '':'' # []" by (simp add: demo_world_def)
  have h3: "endswith (store ?w 0 @ '':'') (sudo_prompt demo_env)"
    by (simp add: demo_world_def demo_env_def endswith_def slice_from_def)
  show ?thesis
    unfolding Let_def
    by (rule conjI [OF h3 C2_prompt_stripped_then_password_sent [OF h1 h2 h3]])
qed

text \<open>
  Claim C5, as stated, fails where the cached password is the empty string: the cache
  holds a password and \<open>reprompt\<close> is off, yet the pass that matches the password prompt
  calls the interactive prompt and sends the operator's answer, not the cached value.
  \<^verbatim>\<open>if (not password) or reprompt\<close> on line 81 is the guard that decides it.
\<close>

theorem C5_counterexample:
  "get_password demo_env empty_cache_world = Some [] \<and>
   \<not> reprompt (demo_vars False) \<and>
   endswith (store empty_cache_world 0 @ '':'') (sudo_prompt demo_env) \<and>
   filter is_Prompt_for_password
     (events (snd (snd (loop_iteration demo_env Recv (demo_vars False, empty_cache_world)))))
     = [Prompt_for_password '' '' True Stdout] \<and>
   filter is_Sendall
     (events (snd (snd (loop_iteration demo_env Recv (demo_vars False, empty_cache_world)))))
     = [Sendall (''hunter2'' @ LF)]"
  by (simp add: eval_defs demo_env_def empty_cache_world_def)

text \<open>
  Claim C5, amended. When the password prompt is matched while the credential cache
  holds a non-empty password and \<open>reprompt\<close> is off, the pass sends the cached password
  followed by a line feed to the channel as its last effect, never calls the interactive
  prompt, and leaves the cache and the count of prompts as they were.
\<close>

theorem C5_cached_password_sent_without_asking:
  assumes "capture v = Some a" and "incoming w which = b # rest"
    and "endswith (store w a @ [b]) (sudo_prompt e)"
    and "get_password e w = Some p" and "p \<noteq> []" and "\<not> reprompt v"
  shows "\<exists>v' w' evs.
     loop_iteration e which (v, w) = (True, v', w') \<and>
     events w' = events w @ evs @ [Sendall (p @ LF)] \<and>
     list_all (\<lambda>ev. \<not> is_Prompt_for_password ev \<and> \<not> is_Set_password ev \<and> \<not> is_Sendall ev) evs \<and>
     asked w' = asked w \<and> password w' = password w \<and> passwords w' = passwords w"
proof -
  let ?n = "- int (length (sudo_prompt e))"
  from prompt_iteration_cached [OF assms]
  obtain fl ipp where fl: "list_all is_Flush fl" and
    it: "loop_iteration e which (v, w) =
       (True, v\<lparr>initial_prefix_printed := ipp\<rparr>,
        w\<lparr>incoming := (incoming w)(which := rest),
          store := (store w)(a := slice_to (store w a @ [b]) ?n),
          events := events w @ Chan_read which [b] # fl @
            [Capture_extend a [b], Capture_del a ?n, Sendall (p @ LF)]\<rparr>)"
    by blast
  let ?evs = "Chan_read which [b] # fl @ [Capture_extend a [b], Capture_del a ?n]"
  have "list_all (\<lambda>ev. \<not> is_Prompt_for_password ev \<and> \<not> is_Set_password ev \<and> \<not> is_Sendall ev) ?evs"
    using flush_not_others [OF fl] by (auto simp: list_all_iff)
  then show ?thesis
    using it
    by - (rule exI [of _ "v\<lparr>initial_prefix_printed := ipp\<rparr>"],
        rule exI [of _ "snd (snd (loop_iteration e which (v, w)))"],
        rule exI [of _ ?evs], simp)
qed

theorem C5_witness:
  "let e = demo_env; v = demo_vars False;
       w = demo_world ''ls: sudo password'' '':'' (Some ''pw'')
   in get_password e w = Some ''pw'' \<and>
      (\<exists>v' w' evs.
         loop_iteration e Recv (v, w) = (True, v', w') \<and>
         events w' = events w @ evs @ [Sendall (''pw'' @ LF)] \<and>
         list_all (\<lambda>ev. \<not> is_Prompt_for_password ev \<and> \<not> is_Set_password ev \<and> \<not> is_Sendall ev) evs \<and>
         asked w' = asked w \<and> password w' = password w \<and> passwords w' = passwords w)"
proof -
  let ?w = "demo_world ''ls: sudo password'' '':'' (Some ''pw'')"
  have h1: "capture (demo_vars False) = Some 0" by (simp add: demo_vars_def)
  have h2: "incoming ?w Recv = CHR '':'' # []" by (simp add: demo_world_def)
  have h3: "endswith (store ?w 0 @ '':'') (sudo_prompt demo_env)"
    by (simp add: demo_world_def demo_env_def endswith_def slice_from_def)
  have h4: "get_password demo_env ?w = Some ''pw''"
    by (simp add: get_password_def demo_world_def)
  have h5: "''pw'' \<noteq> []" by simp
  have h6: "\<not> reprompt (demo_vars False)" by (simp add: demo_vars_def)
  show ?thesis
    unfolding Let_def
    by (rule conjI [OF h4 C5_cached_password_sent_without_asking [OF h1 h2 h3 h4 h5 h6]])
qed

text \<open>
  Claim C9. A cached password that is the empty string is treated as no cached password
  is: with \<open>reprompt\<close> off, a match of the password prompt still calls the interactive
  prompt once, stores the answer, and sends the answer (not the empty cached value)
  followed by a line feed.
\<close>

theorem C9_empty_cached_password_asks:
  assumes "capture v = Some a" and "incoming w which = b # rest"
    and "endswith (store w a @ [b]) (sudo_prompt e)"
    and "get_password e w = Some [] \<or> get_password e w = None" and "\<not> reprompt v"
  shows "\<exists>v' w' evs.
     loop_iteration e which (v, w) = (True, v', w') \<and>
     events w' = events w @ evs @
       [Prompt_for_password '' '' True (stream_pipe which),
        Set_password (operator w (asked w)),
        Sendall (operator w (asked w) @ LF)] \<and>
     list_all (\<lambda>ev. \<not> is_Prompt_for_password ev \<and> \<not> is_Sendall ev) evs \<and>
     asked w' = Suc (asked w)"
proof -
  let ?n = "- int (length (sudo_prompt e))"
  from assms(4) have "get_password e w = None \<or> get_password e w = Some [] \<or> reprompt v"
    by blast
  from prompt_iteration_ask [OF assms(1-3) this]
  obtain fl fl' ipp where fl: "list_all is_Flush fl" "list_all is_Flush fl'" and
    it: "loop_iteration e which (v, w) =
       (True, v\<lparr>initial_prefix_printed := ipp, reprompt := False\<rparr>,
        w\<lparr>incoming := (incoming w)(which := rest),
          store := (store w)(a := slice_to (store w a @ [b]) ?n),
          asked := Suc (asked w), password := Some (operator w (asked w)),
          passwords := (passwords w)(host_string e := Some (operator w (asked w))),
          events := events w @ Chan_read which [b] # fl @
            [Capture_extend a [b], Capture_del a ?n] @ fl' @
            [Prompt_for_password '' '' True (stream_pipe which),
             Set_password (operator w (asked w)),
             Sendall (operator w (asked w) @ LF)]\<rparr>)"
    by blast
  let ?evs = "Chan_read which [b] # fl @ [Capture_extend a [b], Capture_del a ?n] @ fl'"
  have "list_all (\<lambda>ev. \<not> is_Prompt_for_password ev \<and> \<not> is_Sendall ev) ?evs"
    using flush_not_others [OF fl(1)] flush_not_others [OF fl(2)] by (auto simp: list_all_iff)
  then show ?thesis
    using it
    by - (rule exI [of _ "v\<lparr>initial_prefix_printed := ipp, reprompt := False\<rparr>"],
        rule exI [of _ "snd (snd (loop_iteration e which (v, w)))"],
        rule exI [of _ ?evs], simp)
qed

theorem C9_witness:
  "let e = demo_env; v = demo_vars False;
       w = demo_world ''ls: sudo password'' '':'' (Some [])
   in get_password e w = Some [] \<and>
      (\<exists>v' w' evs.
         loop_iteration e Recv (v, w) = (True, v', w') \<and>
         events w' = events w @ evs @
           [Prompt_for_password '' '' True (stream_pipe Recv),
            Set_password (operator w (asked w)),
            Sendall (operator w (asked w) @ LF)] \<and>
         list_all (\<lambda>ev. \<not> is_Prompt_for_password ev \<and> \<not> is_Sendall ev) evs \<and>
         asked w' = Suc (asked w))"
proof -
  let ?w = "demo_world ''ls: sudo password'' '':'' (Some [])"
  have h1: "capture (demo_vars False) = Some 0" by (simp add: demo_vars_def)
  have h2: "incoming ?w Recv = CHR '':'' # []" by (simp add: demo_world_def)
  have h3: "endswith (store ?w 0 @ '':'') (sudo_prompt demo_env)"
    by (simp add: demo_world_def demo_env_def endswith_def slice_from_def)
  have h4: "get_password demo_env ?w = Some []"
    by (simp add: get_password_def demo_world_def)
  have h5: "\<not> reprompt (demo_vars False)" by (simp add: demo_vars_def)
  show ?thesis
    unfolding Let_def
    by (rule conjI [OF h4 C9_empty_cached_password_asks [OF h1 h2 h3 disjI1 [OF h4] h5]])
qed

lemma prompt_iteration_any:
  assumes "capture v = Some a" and "incoming w which = b # rest"
    and "endswith (store w a @ [b]) (sudo_prompt e)"
  shows "\<exists>v' w' evs.
     loop_iteration e which (v, w) = (True, v', w') \<and>
     capture v' = Some a \<and> \<not> reprompt v' \<and> next_free w' = next_free w \<and>
     store w' a = slice_to (store w a @ [b]) (- int (length (sudo_prompt e))) \<and>
     events w' = events w @ evs @ [Sendall (resolved_password e v w @ LF)] \<and>
     list_all (\<lambda>ev. \<not> is_Capture_rebind ev \<and> \<not> is_Sendall ev) evs"
proof (cases "get_password e w = None \<or> get_password e w = Some [] \<or> reprompt v")
  case True
  let ?n = "- int (length (sudo_prompt e))"
  from True have pw: "resolved_password e v w = operator w (asked w)"
    by (auto simp: resolved_password_def split: option.splits)
  from prompt_iteration_ask [OF assms True]
  obtain fl fl' ipp where fl: "list_all is_Flush fl" "list_all is_Flush fl'" and
    it: "loop_iteration e which (v, w) =
       (True, v\<lparr>initial_prefix_printed := ipp, reprompt := False\<rparr>,
        w\<lparr>incoming := (incoming w)(which := rest),
          store := (store w)(a := slice_to (store w a @ [b]) ?n),
          asked := Suc (asked w), password := Some (operator w (asked w)),
          passwords := (passwords w)(host_string e := Some (operator w (asked w))),
          events := events w @ Chan_read which [b] # fl @
            [Capture_extend a [b], Capture_del a ?n] @ fl' @
            [Prompt_for_password '' '' True (stream_pipe which),
             Set_password (operator w (asked w)),
             Sendall (operator w (asked w) @ LF)]\<rparr>)"
    by blast
  let ?evs = "Chan_read which [b] # fl @ [Capture_extend a [b], Capture_del a ?n] @ fl' @
     [Prompt_for_password '' '' True (stream_pipe which), Set_password (operator w (asked w))]"
  have "list_all (\<lambda>ev. \<not> is_Capture_rebind ev \<and> \<not> is_Sendall ev) ?evs"
    using flush_not_others [OF fl(1)] flush_not_others [OF fl(2)] by (auto simp: list_all_iff)
  then show ?thesis
    using it assms(1) pw
    by - (rule exI [of _ "v\<lparr>initial_prefix_printed := ipp, reprompt := False\<rparr>"],
        rule exI [of _ "snd (snd (loop_iteration e which (v, w)))"],
        rule exI [of _ ?evs], simp)
next
  case False
  let ?n = "- int (length (sudo_prompt e))"
  from False obtain p where p: "get_password e w = Some p" "p \<noteq> []" "\<not> reprompt v"
    by (cases "get_password e w") auto
  then have pw: "resolved_password e v w = p"
    by (simp add: resolved_password_def)
  from prompt_iteration_cached [OF assms p]
  obtain fl ipp where fl: "list_all is_Flush fl" and
    it: "loop_iteration e which (v, w) =
       (True, v\<lparr>initial_prefix_printed := ipp\<rparr>,
        w\<lparr>incoming := (incoming w)(which := rest),
          store := (store w)(a := slice_to (store w a @ [b]) ?n),
          events := events w @ Chan_read which [b] # fl @
            [Capture_extend a [b], Capture_del a ?n, Sendall (p @ LF)]\<rparr>)"
    by blast
  let ?evs = "Chan_read which [b] # fl @ [Capture_extend a [b], Capture_del a ?n]"
  have "list_all (\<lambda>ev. \<not> is_Capture_rebind ev \<and> \<not> is_Sendall ev) ?evs"
    using flush_not_others [OF fl] by (auto simp: list_all_iff)
  then show ?thesis
    using it assms(1) pw p(3)
    by - (rule exI [of _ "v\<lparr>initial_prefix_printed := ipp\<rparr>"],
        rule exI [of _ "snd (snd (loop_iteration e which (v, w)))"],
        rule exI [of _ ?evs], simp)
qed

text \<open>
  Claim C10. When the byte just appended completes both the password prompt and the
  retry string followed by a line terminator, only the branch of the password prompt
  runs: the prompt is stripped from the same list object, the password is resolved and
  sent, the capture name is not rebound (no list is allocated), and \<open>reprompt\<close> is off
  after the pass.
\<close>

theorem C10_prompt_match_wins_over_retry_match:
  assumes "capture v = Some a" and "incoming w which = b # rest"
    and "endswith (store w a @ [b]) (sudo_prompt e)"
    and "endswith (store w a @ [b]) (again_prompt e @ LF)
         \<or> endswith (store w a @ [b]) (again_prompt e @ CR @ LF)"
  shows "\<exists>v' w' evs.
     loop_iteration e which (v, w) = (True, v', w') \<and>
     capture v' = Some a \<and> \<not> reprompt v' \<and> next_free w' = next_free w \<and>
     store w' a @ sudo_prompt e = store w a @ [b] \<and>
     events w' = events w @ evs @ [Sendall (resolved_password e v w @ LF)] \<and>
     list_all (\<lambda>ev. \<not> is_Capture_rebind ev \<and> \<not> is_Sendall ev) evs"
proof -
  from endswith_snoc [OF assms(3)]
  have cut: "slice_to (store w a @ [b]) (- int (length (sudo_prompt e))) @ sudo_prompt e
      = store w a @ [b]" by simp
  from prompt_iteration_any [OF assms(1-3)]
  obtain v' w' evs where r: "loop_iteration e which (v, w) = (True, v', w')"
     "capture v' = Some a" "\<not> reprompt v'" "next_free w' = next_free w"
     "store w' a = slice_to (store w a @ [b]) (- int (length (sudo_prompt e)))"
     "events w' = events w @ evs @ [Sendall (resolved_password e v w @ LF)]"
     "list_all (\<lambda>ev. \<not> is_Capture_rebind ev \<and> \<not> is_Sendall ev) evs"
    by blast
  from r(5) cut have "store w' a @ sudo_prompt e = store w a @ [b]" by simp
  with r show ?thesis by blast
qed

theorem C10_witness:
  "let e = overlap_env; v = demo_vars True;
       w = demo_world ''Wrong password:'' LF (Some ''pw'')
   in endswith (store w 0 @ LF) (sudo_prompt e) \<and>
      endswith (store w 0 @ LF) (again_prompt e @ LF) \<and>
      (\<exists>v' w' evs.
         loop_iteration e Recv (v, w) = (True, v', w') \<and>
         capture v' = Some 0 \<and> \<not> reprompt v' \<and> next_free w' = next_free w \<and>
         store w' 0 @ sudo_prompt e = store w 0 @ LF \<and>
         events w' = events w @ evs @ [Sendall (resolved_password e v w @ LF)] \<and>
         list_all (\<lambda>ev. \<not> is_Capture_rebind ev \<and> \<not> is_Sendall ev) evs)"
proof -
  let ?w = "demo_world ''Wrong password:'' LF (Some ''pw'')"
  have h1: "capture (demo_vars True) = Some 0" by (simp add: demo_vars_def)
  have h2: "incoming ?w Recv = CHR 0x0A # []" by (simp add: demo_world_def)
  have h3: "endswith (store ?w 0 @ LF) (sudo_prompt overlap_env)"
    by (simp add: demo_world_def overlap_env_def endswith_def slice_from_def)
  have h4: "endswith (store ?w 0 @ LF) (again_prompt overlap_env @ LF)"
    by (simp add: demo_world_def overlap_env_def endswith_def slice_from_def)
  show ?thesis
    unfolding Let_def
    by (intro conjI h3 h4
        C10_prompt_match_wins_over_retry_match [OF h1 h2 h3 disjI1 [OF h4]])
qed

lemma passes_Suc: "passes e which (Suc n) s = snd (loop_iteration e which (passes e which n s))"
  by (simp add: passes_def)

lemma reprompt_after_pass:
  assumes "\<not> prompt_pending e which (v, w)"
    and "reprompt v \<or> retry_pending e which (v, w)"
  shows "reprompt (fst (snd (loop_iteration e which (v, w))))"
proof (cases "incoming w which")
  case Nil
  with assms show ?thesis
    by (auto simp: loop_iteration_def chan_read_def retry_pending_def split: option.splits)
next
  case (Cons b rest)
  show ?thesis
  proof (cases "capture v")
    case None
    with assms Cons show ?thesis
      by (auto simp: loop_iteration_def chan_read_def handle_byte_def retry_pending_def)
  next
    case (Some a)
    from loop_iteration_capture [OF Some Cons, of e]
    obtain fl ipp where
      it: "loop_iteration e which (v, w) =
       (True, handle_prompts e which a
          (v\<lparr>initial_prefix_printed := ipp\<rparr>,
           w\<lparr>incoming := (incoming w)(which := rest),
             store := (store w)(a := store w a @ [b]),
             events := events w @ Chan_read which [b] # fl @ [Capture_extend a [b]]\<rparr>))"
      by blast
    from assms(1) Some Cons have np: "\<not> endswith (store w a @ [b]) (sudo_prompt e)"
      by (simp add: prompt_pending_def)
    from assms(2) Some Cons have
      "reprompt v \<or> endswith (store w a @ [b]) (again_prompt e @ LF)
              \<or> endswith (store w a @ [b]) (again_prompt e @ CR @ LF)"
      by (simp add: retry_pending_def)
    with np show ?thesis
      by (auto simp: it handle_prompts_def on_try_again_def capture_rebind_def)
  qed
qed

lemma reprompt_until_prompt:
  assumes "retry_pending e which s0" and "\<not> prompt_pending e which s0"
    and "\<forall>k<n. \<not> prompt_pending e which (passes e which (Suc k) s0)"
  shows "reprompt (fst (passes e which (Suc n) s0))"
  using assms(3)
proof (induction n)
  case 0
  from reprompt_after_pass [of e which "fst s0" "snd s0"] assms(1,2)
  show ?case by (simp add: passes_def)
next
  case (Suc n)
  then have r: "reprompt (fst (passes e which (Suc n) s0))" by simp
  from Suc.prems have np: "\<not> prompt_pending e which (passes e which (Suc n) s0)" by simp
  from reprompt_after_pass [of e which "fst (passes e which (Suc n) s0)"
      "snd (passes e which (Suc n) s0)"] r np
  show ?case by (simp add: passes_Suc)
qed

text \<open>
  Claim C4. After a pass that matched the retry string followed by a line terminator
  (and not the password prompt), and with no match of the password prompt in the \<open>n\<close>
  passes after it, \<open>reprompt\<close> is still on, and the next pass that matches the password
  prompt calls the interactive prompt whatever the credential cache holds, stores the
  answer in the cache, sends it followed by a line feed, and leaves \<open>reprompt\<close> off.
\<close>

theorem C4_retry_forces_fresh_password:
  assumes "retry_pending e which s0" and "\<not> prompt_pending e which s0"
    and "\<forall>k<n. \<not> prompt_pending e which (passes e which (Suc k) s0)"
    and "prompt_pending e which (passes e which (Suc n) s0)"
  shows "\<exists>v w v' w' evs.
     passes e which (Suc n) s0 = (v, w) \<and> reprompt v \<and>
     loop_iteration e which (v, w) = (True, v', w') \<and>
     events w' = events w @ evs @
       [Prompt_for_password '' '' True (stream_pipe which),
        Set_password (operator w (asked w)),
        Sendall (operator w (asked w) @ LF)] \<and>
     list_all (\<lambda>ev. \<not> is_Prompt_for_password ev \<and> \<not> is_Sendall ev) evs \<and>
     asked w' = Suc (asked w) \<and>
     get_password e w' = Some (operator w (asked w)) \<and>
     \<not> reprompt v'"
proof -
  obtain v w where s: "passes e which (Suc n) s0 = (v, w)"
    by (cases "passes e which (Suc n) s0")
  from reprompt_until_prompt [OF assms(1-3)] s have r: "reprompt v" by simp
  from assms(4) s obtain a b rest where
    c: "capture v = Some a" and i: "incoming w which = b # rest"
    and m: "endswith (store w a @ [b]) (sudo_prompt e)"
    by (auto simp: prompt_pending_def split: option.splits list.splits)
  let ?n = "- int (length (sudo_prompt e))"
  from r have "get_password e w = None \<or> get_password e w = Some [] \<or> reprompt v" by simp
  from prompt_iteration_ask [OF c i m this]
  obtain fl fl' ipp where fl: "list_all is_Flush fl" "list_all is_Flush fl'" and
    it: "loop_iteration e which (v, w) =
       (True, v\<lparr>initial_prefix_printed := ipp, reprompt := False\<rparr>,
        w\<lparr>incoming := (incoming w)(which := rest),
          store := (store w)(a := slice_to (store w a @ [b]) ?n),
          asked := Suc (asked w), password := Some (operator w (asked w)),
          passwords := (passwords w)(host_string e := Some (operator w (asked w))),
          events := events w @ Chan_read which [b] # fl @
            [Capture_extend a [b], Capture_del a ?n] @ fl' @
            [Prompt_for_password '' '' True (stream_pipe which),
             Set_password (operator w (asked w)),
             Sendall (operator w (asked w) @ LF)]\<rparr>)"
    by blast
  let ?evs = "Chan_read which [b] # fl @ [Capture_extend a [b], Capture_del a ?n] @ fl'"
  have "list_all (\<lambda>ev. \<not> is_Prompt_for_password ev \<and> \<not> is_Sendall ev) ?evs"
    using flush_not_others [OF fl(1)] flush_not_others [OF fl(2)] by (auto simp: list_all_iff)
  then show ?thesis
    using it s r
    by - (rule exI [of _ v], rule exI [of _ w],
        rule exI [of _ "v\<lparr>initial_prefix_printed := ipp, reprompt := False\<rparr>"],
        rule exI [of _ "snd (snd (loop_iteration e which (v, w)))"],
        rule exI [of _ ?evs], simp add: get_password_def)
qed

theorem C4_witness:
  "let e = short_env; s0 = (demo_vars False, demo_world ''no'' (LF @ ''pw:'') (Some ''old''))
   in retry_pending e Recv s0 \<and> \<not> prompt_pending e Recv s0 \<and>
      prompt_pending e Recv (passes e Recv (Suc (Suc (Suc 0))) s0) \<and>
      (\<exists>v w v' w' evs.
         passes e Recv (Suc (Suc (Suc 0))) s0 = (v, w) \<and> reprompt v \<and>
         loop_iteration e Recv (v, w) = (True, v', w') \<and>
         events w' = events w @ evs @
           [Prompt_for_password '' '' True (stream_pipe Recv),
            Set_password (operator w (asked w)),
            Sendall (operator w (asked w) @ LF)] \<and>
         list_all (\<lambda>ev. \<not> is_Prompt_for_password ev \<and> \<not> is_Sendall ev) evs \<and>
         asked w' = Suc (asked w) \<and>
         get_password e w' = Some (operator w (asked w)) \<and>
         \<not> reprompt v')"
proof -
  let ?s0 = "(demo_vars False, demo_world ''no'' (LF @ ''pw:'') (Some ''old''))"
  have h1: "retry_pending short_env Recv ?s0"
    by (simp add: eval_defs short_env_def)
  have h2: "\<not> prompt_pending short_env Recv ?s0"
    by (simp add: eval_defs short_env_def)
  have p1: "\<not> prompt_pending short_env Recv (passes short_env Recv (Suc 0) ?s0)"
    by (simp add: eval_defs short_env_def)
  have p2: "\<not> prompt_pending short_env Recv (passes short_env Recv (Suc (Suc 0)) ?s0)"
    by (simp add: eval_defs short_env_def)
  have h3: "\<forall>k<Suc (Suc 0). \<not> prompt_pending short_env Recv (passes short_env Recv (Suc k) ?s0)"
    using p1 p2 by (auto simp: less_Suc_eq)
  have h4: "prompt_pending short_env Recv (passes short_env Recv (Suc (Suc (Suc 0))) ?s0)"
    by (simp add: eval_defs short_env_def)
  show ?thesis
    unfolding Let_def
    by (intro conjI h1 h2 h4 C4_retry_forces_fresh_password [OF h1 h2 h3 h4])
qed

lemma output_loop_while_end:
  "incoming w which = [] \<Longrightarrow>
   output_loop_while e which (v, w) = (v, w\<lparr>events := events w @ [Chan_read which []]\<rparr>)"
  by (subst output_loop_while.simps) (simp add: loop_iteration_def chan_read_def log_def)

lemma output_loop_while_step:
  "loop_iteration e which s = (True, s') \<Longrightarrow>
   output_loop_while e which s = output_loop_while e which s'"
  by (subst output_loop_while.simps) simp

lemma raw_loop:
  "capture v = None \<Longrightarrow> incoming w which = bs \<Longrightarrow>
   output_loop_while e which (v, w) =
     (v, w\<lparr>incoming := (incoming w)(which := []),
          events := events w @ concat (map (\<lambda>b. [Chan_read which [b], Flush Stdout [b]]) bs)
                      @ [Chan_read which []]\<rparr>)"
proof (induction bs arbitrary: w)
  case Nil
  then have "(incoming w)(which := []) = incoming w" by auto
  with Nil show ?case by (simp add: output_loop_while_end)
next
  case (Cons b bs)
  let ?w1 = "w\<lparr>incoming := (incoming w)(which := bs),
               events := events w @ [Chan_read which [b], Flush Stdout [b]]\<rparr>"
  have "loop_iteration e which (v, w) = (True, v, ?w1)"
    using Cons.prems
    by (simp add: loop_iteration_def chan_read_def handle_byte_def flush_def log_def)
  then have "output_loop_while e which (v, w) = output_loop_while e which (v, ?w1)"
    by (rule output_loop_while_step)
  also have "\<dots> = (v, ?w1\<lparr>incoming := (incoming ?w1)(which := []),
          events := events ?w1 @ concat (map (\<lambda>b. [Chan_read which [b], Flush Stdout [b]]) bs)
                      @ [Chan_read which []]\<rparr>)"
    using Cons.prems(1) by (intro Cons.IH) simp_all
  also have "\<dots> = (v, w\<lparr>incoming := (incoming w)(which := []),
          events := events w @ concat (map (\<lambda>b. [Chan_read which [b], Flush Stdout [b]]) (b # bs))
                      @ [Chan_read which []]\<rparr>)"
    by simp
  finally show ?case .
qed

text \<open>
  Claim C6. In raw-passthrough mode (\<open>capture\<close> is \<open>None\<close>) the loop, whatever the bytes
  of the stream and the prompts of the configuration, does nothing but read each byte and
  write it, alone and without prefix, to the local standard output, until the read at
  the end of the stream. The loop variables, the list objects, the credential cache and
  the count of interactive prompts are as before: nothing is written to the channel and
  no prompt is looked for.
\<close>

theorem C6_raw_passthrough:
  "output_loop e which None w =
     (\<lparr>capture = None, reprompt = False, initial_prefix_printed = False\<rparr>,
      w\<lparr>incoming := (incoming w)(which := []),
        events := events w
          @ concat (map (\<lambda>b. [Chan_read which [b], Flush Stdout [b]]) (incoming w which))
          @ [Chan_read which []]\<rparr>)"
  unfolding output_loop_def by (rule raw_loop) simp_all

theorem C6_witness:
  "let w = demo_world [] ''sudo password:'' (Some ''pw'');
       (v', w') = output_loop demo_env Recv None w
   in events w' = concat (map (\<lambda>b. [Chan_read Recv [b], Flush Stdout [b]]) ''sudo password:'')
                  @ [Chan_read Recv []] \<and>
      filter is_Sendall (events w') = [] \<and>
      password w' = Some ''pw'' \<and> store w' = store w \<and> asked w' = 0"
  by (simp add: C6_raw_passthrough demo_world_def)

lemma endswith_suffix: "endswith xs p \<Longrightarrow> suffix p xs"
  by (auto simp: endswith_iff split: if_splits)

lemma quiet_iteration:
  assumes "capture v = Some a" "incoming w which = b # rest" "quiet e (store w a @ [b])"
  shows "\<exists>fl ipp. list_all is_Flush fl \<and>
     loop_iteration e which (v, w) =
       (True, v\<lparr>initial_prefix_printed := ipp\<rparr>,
        w\<lparr>incoming := (incoming w)(which := rest),
          store := (store w)(a := store w a @ [b]),
          events := events w @ Chan_read which [b] # fl @ [Capture_extend a [b]]\<rparr>)"
proof -
  from loop_iteration_capture [OF assms(1,2), of e]
  obtain fl ipp where fl: "list_all is_Flush fl" and
    it: "loop_iteration e which (v, w) =
       (True, handle_prompts e which a
          (v\<lparr>initial_prefix_printed := ipp\<rparr>,
           w\<lparr>incoming := (incoming w)(which := rest),
             store := (store w)(a := store w a @ [b]),
             events := events w @ Chan_read which [b] # fl @ [Capture_extend a [b]]\<rparr>))"
    by blast
  from assms(3) it have "loop_iteration e which (v, w) =
       (True, v\<lparr>initial_prefix_printed := ipp\<rparr>,
        w\<lparr>incoming := (incoming w)(which := rest),
          store := (store w)(a := store w a @ [b]),
          events := events w @ Chan_read which [b] # fl @ [Capture_extend a [b]]\<rparr>)"
    by (simp add: handle_prompts_def quiet_def)
  with fl show ?thesis by blast
qed

lemma quiet_loop:
  assumes "capture v = Some a" "incoming w which = bs"
    and "\<forall>k. 0 < k \<and> k \<le> length bs \<longrightarrow> quiet e (store w a @ take k bs)"
  shows "\<exists>v' w'. output_loop_while e which (v, w) = (v', w') \<and>
     capture v' = Some a \<and> store w' a = store w a @ bs \<and> incoming w' which = [] \<and>
     next_free w' = next_free w \<and> filter is_Sendall (events w') = filter is_Sendall (events w)"
  using assms
proof (induction bs arbitrary: v w)
  case Nil
  then show ?case by (simp add: output_loop_while_end)
next
  case (Cons b bs)
  from Cons.prems(3) have "quiet e (store w a @ take 1 (b # bs))"
    by (metis le_add1 length_Cons plus_1_eq_Suc zero_less_one)
  then have q: "quiet e (store w a @ [b])" by simp
  from quiet_iteration [OF Cons.prems(1,2) q]
  obtain fl ipp where fl: "list_all is_Flush fl" and
    it: "loop_iteration e which (v, w) =
       (True, v\<lparr>initial_prefix_printed := ipp\<rparr>,
        w\<lparr>incoming := (incoming w)(which := bs),
          store := (store w)(a := store w a @ [b]),
          events := events w @ Chan_read which [b] # fl @ [Capture_extend a [b]]\<rparr>)"
    by blast
  let ?v1 = "v\<lparr>initial_prefix_printed := ipp\<rparr>"
  let ?w1 = "w\<lparr>incoming := (incoming w)(which := bs),
          store := (store w)(a := store w a @ [b]),
          events := events w @ Chan_read which [b] # fl @ [Capture_extend a [b]]\<rparr>"
  have c1: "capture ?v1 = Some a" using Cons.prems(1) by simp
  have i1: "incoming ?w1 which = bs" by simp
  have q1: "\<forall>k. 0 < k \<and> k \<le> length bs \<longrightarrow> quiet e (store ?w1 a @ take k bs)"
  proof (intro allI impI)
    fix k assume "0 < k \<and> k \<le> length bs"
    then have "0 < Suc k \<and> Suc k \<le> length (b # bs)" by simp
    with Cons.prems(3) have "quiet e (store w a @ take (Suc k) (b # bs))" by blast
    then show "quiet e (store ?w1 a @ take k bs)" by simp
  qed
  from Cons.IH [OF c1 i1 q1]
  obtain v' w' where r: "output_loop_while e which (?v1, ?w1) = (v', w')"
     "capture v' = Some a" "store w' a = store ?w1 a @ bs" "incoming w' which = []"
     "next_free w' = next_free ?w1"
     "filter is_Sendall (events w') = filter is_Sendall (events ?w1)"
    by blast
  have nf: "filter is_Sendall fl = []"
    using flush_not_others [OF fl] by (auto simp: list_all_iff filter_empty_conv)
  from it have "output_loop_while e which (v, w) = output_loop_while e which (?v1, ?w1)"
    by (rule output_loop_while_step)
  with r nf show ?case by simp
qed

text \<open>
  Claim C3. In capture mode, when no list met on the way (the initial contents followed
  by the first \<open>k\<close> bytes received, for every \<open>k\<close> from one to the number of bytes) has a
  tail equal to the password prompt or to the retry string followed by a line
  terminator, the capture list at the end of the loop is the same list object, holding
  its initial contents followed by exactly the bytes received, in order.
\<close>

theorem C3_capture_accumulates:
  assumes "\<forall>k. 0 < k \<and> k \<le> length (incoming w which)
             \<longrightarrow> quiet e (store w a @ take k (incoming w which))"
  shows "\<exists>v' w'. output_loop e which (Some a) w = (v', w') \<and>
     capture v' = Some a \<and> store w' a = store w a @ incoming w which \<and>
     incoming w' which = []"
proof -
  let ?v = "\<lparr>capture = Some a, reprompt = False, initial_prefix_printed = False\<rparr>"
  have c: "capture ?v = Some a" by simp
  from quiet_loop [OF c refl assms] show ?thesis
    unfolding output_loop_def by blast
qed

theorem C3_witness:
  "let w = demo_world ''$ '' ''ls'' (Some ''pw'')
   in quiet demo_env ''$ l'' \<and> quiet demo_env ''$ ls'' \<and>
      (\<exists>v' w'. output_loop demo_env Recv (Some 0) w = (v', w') \<and>
         capture v' = Some 0 \<and> store w' 0 = store w 0 @ incoming w Recv \<and>
         incoming w' Recv = [])"
proof -
  let ?w = "demo_world ''$ '' ''ls'' (Some ''pw'')"
  have q1: "quiet demo_env ''$ l''"
    by (simp add: quiet_def endswith_def slice_from_def demo_env_def)
  have q2: "quiet demo_env ''$ ls''"
    by (simp add: quiet_def endswith_def slice_from_def demo_env_def)
  have h: "\<forall>k. 0 < k \<and> k \<le> length (incoming ?w Recv)
             \<longrightarrow> quiet demo_env (store ?w 0 @ take k (incoming ?w Recv))"
  proof (intro allI impI)
    fix k assume "0 < k \<and> k \<le> length (incoming ?w Recv)"
    then have "k = Suc 0 \<or> k = Suc (Suc 0)" by (auto simp: demo_world_def)
    then show "quiet demo_env (store ?w 0 @ take k (incoming ?w Recv))"
      using q1 q2 by (auto simp: demo_world_def)
  qed
  show ?thesis
    unfolding Let_def
    by (intro conjI q1 q2 C3_capture_accumulates [OF h])
qed

section \<open>The claims on the input loop\<close>

text \<open>
  Claim C7. The claim asks that every byte made available by the local input be
  forwarded to the channel, in order of arrival, until the channel reports the remote
  process finished. Where \<^verbatim>\<open>win32\<close> is off the loop polls the descriptor of
  \<^verbatim>\<open>sys.stdin\<close> and reads through the file object. When two bytes reach the descriptor
  within one poll, the pass that reads the first takes the second into the buffer of the
  file object; the two passes after it find nothing at the descriptor and forward
  nothing, although the second byte waits in that buffer and the remote process still
  runs, and the loop returns with the byte unread. On win32, where keys are polled and
  read at the console, the same schedule has both bytes forwarded.
\<close>

theorem C7_burst_leaves_byte_unforwarded:
  "map_option events (input_loop posix demo_env False burst_ticks (demo_world [] [] None)) =
     Some [Exit_status_ready False, Have_char True, Stdin_read ''b'', Sendall ''b'',
           Flush Stdout ''b'',
           Exit_status_ready False, Have_char False,
           Exit_status_ready False, Have_char False,
           Exit_status_ready True] \<and>
   map_option stdin_buf (input_loop posix demo_env False burst_ticks (demo_world [] [] None)) =
     Some ''c'' \<and>
   map_option events (input_loop windows demo_env False burst_ticks (demo_world [] [] None)) =
     Some [Exit_status_ready False, Have_char True, Stdin_read ''b'', Sendall ''b'',
           Flush Stdout ''b'',
           Exit_status_ready False, Have_char True, Stdin_read ''c'', Sendall ''c'',
           Flush Stdout ''c'',
           Exit_status_ready False, Have_char False,
           Exit_status_ready True]"
  by (simp add: input_defs burst_ticks_def posix_def windows_def demo_env_def demo_world_def)

lemma input_iteration_pass:
  assumes "\<not> exit_ready t"
  shows "\<exists>w1 hd. input_iteration p e using_pty t w = Some (True, w1) \<and>
     events w1 = events w @ hd \<and>
     filter (\<lambda>ev. is_Sendall ev \<or> is_Flush ev) hd =
       concat (map (\<lambda>s. if \<not> using_pty \<and> echo_stdin e
                         then [Sendall s, Flush Stdout s] else [Sendall s])
         (map sent_text (filter is_Sendall hd))) \<and>
     map sent_text (filter is_Sendall hd) = map read_text (filter is_Stdin_read hd) \<and>
     filter is_Exit_status_ready hd = [Exit_status_ready False]"
proof -
  let ?P = "\<lambda>hd. filter (\<lambda>ev. is_Sendall ev \<or> is_Flush ev) hd =
       concat (map (\<lambda>s. if \<not> using_pty \<and> echo_stdin e
                         then [Sendall s, Flush Stdout s] else [Sendall s])
         (map sent_text (filter is_Sendall hd))) \<and>
     map sent_text (filter is_Sendall hd) = map read_text (filter is_Stdin_read hd) \<and>
     filter is_Exit_status_ready hd = [Exit_status_ready False]"
  let ?w1 = "w\<lparr>events := events w @ [Exit_status_ready False]\<rparr>"
  obtain hc w2 where hc: "have_char p t ?w1 = (hc, w2)" by (cases "have_char p t ?w1")
  then have w2: "events w2 = events w @ [Exit_status_ready False, Have_char hc]"
    and rdy: "hc \<longleftrightarrow> (if win32 p then stdin_fd w2 \<noteq> [] else stdin_fd w2 \<noteq> [] \<or> stdin_eof w2)"
    by (auto simp: have_char_def log_def Let_def)
  show ?thesis
  proof (cases hc)
    case False
    have "input_iteration p e using_pty t w = Some (True, w2)"
      using assms hc False by (simp add: input_iteration_def log_def)
    moreover have "?P [Exit_status_ready False, Have_char hc]" by simp
    ultimately show ?thesis using w2 by blast
  next
    case True
    with rdy have "\<exists>s w3. stdin_read p w2 = Some (s, w3) \<and> events w3 = events w2 @ [Stdin_read s]"
      by (auto simp: stdin_read_def log_def split: list.splits if_splits)
    then obtain s w3 where rd: "stdin_read p w2 = Some (s, w3)"
      and w3: "events w3 = events w2 @ [Stdin_read s]" by blast
    let ?w5 = "if \<not> using_pty \<and> echo_stdin e
               then flush Stdout s (sendall s w3) else sendall s w3"
    let ?hd = "[Exit_status_ready False, Have_char hc, Stdin_read s, Sendall s]
               @ (if \<not> using_pty \<and> echo_stdin e then [Flush Stdout s] else [])"
    have "input_iteration p e using_pty t w = Some (True, ?w5)"
      using assms hc True rd by (simp add: input_iteration_def log_def)
    moreover have "events ?w5 = events w @ ?hd"
      using w2 w3 by (simp add: sendall_def flush_def log_def)
    moreover have "?P ?hd" by simp
    ultimately show ?thesis by blast
  qed
qed

lemma input_run:
  assumes "\<forall>x\<in>set pre. \<not> exit_ready x" and "exit_ready t"
  shows "\<exists>w' evs. input_loop p e using_pty (pre @ t # post) w = Some w' \<and>
     events w' = events w @ evs @ [Exit_status_ready True] \<and>
     filter (\<lambda>ev. is_Sendall ev \<or> is_Flush ev) evs =
       concat (map (\<lambda>s. if \<not> using_pty \<and> echo_stdin e
                         then [Sendall s, Flush Stdout s] else [Sendall s])
         (map sent_text (filter is_Sendall evs))) \<and>
     map sent_text (filter is_Sendall evs) = map read_text (filter is_Stdin_read evs) \<and>
     filter is_Exit_status_ready evs = replicate (length pre) (Exit_status_ready False)"
  using assms(1)
proof (induction pre arbitrary: w)
  case Nil
  have "input_loop p e using_pty (t # post) w =
      Some (w\<lparr>events := events w @ [Exit_status_ready True]\<rparr>)"
    using assms(2) by (simp add: input_iteration_def log_def)
  then show ?case
    by (intro exI [of _ "w\<lparr>events := events w @ [Exit_status_ready True]\<rparr>"] exI [of _ "[]"])
      simp
next
  case (Cons x pre)
  then have nx: "\<not> exit_ready x" and rest: "\<forall>x\<in>set pre. \<not> exit_ready x" by simp_all
  from input_iteration_pass [OF nx, of p e using_pty w]
  obtain w1 hd where it: "input_iteration p e using_pty x w = Some (True, w1)"
    and e1: "events w1 = events w @ hd"
    and h: "filter (\<lambda>ev. is_Sendall ev \<or> is_Flush ev) hd =
       concat (map (\<lambda>s. if \<not> using_pty \<and> echo_stdin e
                         then [Sendall s, Flush Stdout s] else [Sendall s])
         (map sent_text (filter is_Sendall hd)))"
      "map sent_text (filter is_Sendall hd) = map read_text (filter is_Stdin_read hd)"
      "filter is_Exit_status_ready hd = [Exit_status_ready False]"
    by blast
  from Cons.IH [OF rest, of w1]
  obtain w' evs where r: "input_loop p e using_pty (pre @ t # post) w1 = Some w'"
    and e2: "events w' = events w1 @ evs @ [Exit_status_ready True]"
    and f: "filter (\<lambda>ev. is_Sendall ev \<or> is_Flush ev) evs =
       concat (map (\<lambda>s. if \<not> using_pty \<and> echo_stdin e
                         then [Sendall s, Flush Stdout s] else [Sendall s])
         (map sent_text (filter is_Sendall evs)))"
      "map sent_text (filter is_Sendall evs) = map read_text (filter is_Stdin_read evs)"
      "filter is_Exit_status_ready evs = replicate (length pre) (Exit_status_ready False)"
    by blast
  have "input_loop p e using_pty ((x # pre) @ t # post) w = Some w'"
    using it r by simp
  moreover have "events w' = events w @ (hd @ evs) @ [Exit_status_ready True]"
    using e1 e2 by simp
  ultimately show ?case
    using h f by (intro exI [of _ w'] exI [of _ "hd @ evs"]) simp
qed

text \<open>
  Claim C8. Take a schedule whose first pass to find the exit status ready is \<open>t\<close>, after
  the passes \<open>pre\<close>. The loop returns at \<open>t\<close>, and the writes of the run to the channel
  and to the local streams are, for each text sent to the channel in turn: that write,
  followed by the same text written to the local standard output when no pseudo-terminal
  is in use and \<^verbatim>\<open>env.echo_stdin\<close> is on; that write and nothing else when a
  pseudo-terminal is in use or \<^verbatim>\<open>env.echo_stdin\<close> is off. What is sent is what was
  read from the local input, read by read.
\<close>

theorem C8_echo_only_without_pty:
  assumes "\<forall>x\<in>set pre. \<not> exit_ready x" and "exit_ready t"
  shows "\<exists>w' evs.
     input_loop p e using_pty (pre @ t # post) w = Some w' \<and>
     events w' = events w @ evs @ [Exit_status_ready True] \<and>
     filter (\<lambda>ev. is_Sendall ev \<or> is_Flush ev) evs =
       concat (map (\<lambda>s. if \<not> using_pty \<and> echo_stdin e
                         then [Sendall s, Flush Stdout s] else [Sendall s])
         (map sent_text (filter is_Sendall evs))) \<and>
     map sent_text (filter is_Sendall evs) = map read_text (filter is_Stdin_read evs)"
proof -
  from input_run [OF assms, of p e using_pty post w]
  obtain w' evs where "input_loop p e using_pty (pre @ t # post) w = Some w'"
    "events w' = events w @ evs @ [Exit_status_ready True]"
    "filter (\<lambda>ev. is_Sendall ev \<or> is_Flush ev) evs =
       concat (map (\<lambda>s. if \<not> using_pty \<and> echo_stdin e
                         then [Sendall s, Flush Stdout s] else [Sendall s])
         (map sent_text (filter is_Sendall evs)))"
    "map sent_text (filter is_Sendall evs) = map read_text (filter is_Stdin_read evs)"
    by blast
  then show ?thesis by blast
qed

theorem C8_witness:
  "map_option events
     (input_loop posix demo_env False (demo_ticks @ demo_last # []) (demo_world [] [] None)) =
     Some [Exit_status_ready False, Have_char True, Stdin_read ''a'', Sendall ''a'',
           Flush Stdout ''a'',
           Exit_status_ready False, Have_char True, Stdin_read ''b'', Sendall ''b'',
           Flush Stdout ''b'',
           Exit_status_ready False, Have_char True, Stdin_read ''c'', Sendall ''c'',
           Flush Stdout ''c'',
           Exit_status_ready False, Have_char True, Stdin_read [], Sendall [],
           Flush Stdout [],
           Exit_status_ready True] \<and>
   map_option events
     (input_loop posix demo_env True (demo_ticks @ demo_last # []) (demo_world [] [] None)) =
     Some [Exit_status_ready False, Have_char True, Stdin_read ''a'', Sendall ''a'',
           Exit_status_ready False, Have_char True, Stdin_read ''b'', Sendall ''b'',
           Exit_status_ready False, Have_char True, Stdin_read ''c'', Sendall ''c'',
           Exit_status_ready False, Have_char True, Stdin_read [], Sendall [],
           Exit_status_ready True] \<and>
   (\<exists>w' evs.
     input_loop posix demo_env False (demo_ticks @ demo_last # []) (demo_world [] [] None)
       = Some w' \<and>
     events w' = events (demo_world [] [] None) @ evs @ [Exit_status_ready True] \<and>
     filter (\<lambda>ev. is_Sendall ev \<or> is_Flush ev) evs =
       concat (map (\<lambda>s. if \<not> False \<and> echo_stdin demo_env
                         then [Sendall s, Flush Stdout s] else [Sendall s])
         (map sent_text (filter is_Sendall evs))) \<and>
     map sent_text (filter is_Sendall evs) = map read_text (filter is_Stdin_read evs))"
proof -
  have h1: "\<forall>x\<in>set demo_ticks. \<not> exit_ready x" by (simp add: demo_ticks_def)
  have h2: "exit_ready demo_last" by (simp add: demo_last_def)
  have r1: "map_option events
     (input_loop posix demo_env False (demo_ticks @ demo_last # []) (demo_world [] [] None)) =
     Some [Exit_status_ready False, Have_char True, Stdin_read ''a'', Sendall ''a'',
           Flush Stdout ''a'',
           Exit_status_ready False, Have_char True, Stdin_read ''b'', Sendall ''b'',
           Flush Stdout ''b'',
           Exit_status_ready False, Have_char True, Stdin_read ''c'', Sendall ''c'',
           Flush Stdout ''c'',
           Exit_status_ready False, Have_char True, Stdin_read [], Sendall [],
           Flush Stdout [],
           Exit_status_ready True]"
    by (simp add: input_defs demo_ticks_def demo_last_def posix_def demo_env_def demo_world_def)
  have r2: "map_option events
     (input_loop posix demo_env True (demo_ticks @ demo_last # []) (demo_world [] [] None)) =
     Some [Exit_status_ready False, Have_char True, Stdin_read ''a'', Sendall ''a'',
           Exit_status_ready False, Have_char True, Stdin_read ''b'', Sendall ''b'',
           Exit_status_ready False, Have_char True, Stdin_read ''c'', Sendall ''c'',
           Exit_status_ready False, Have_char True, Stdin_read [], Sendall [],
           Exit_status_ready True]"
    by (simp add: input_defs demo_ticks_def demo_last_def posix_def demo_env_def demo_world_def)
  show ?thesis
    by (intro conjI r1 r2 C8_echo_only_without_pty [OF h1 h2])
qed

end
